theory Spec2Isabelle
  imports Main "HOL-Library.AList" "HOL-Library.Multiset"
begin

section \<open>Session recording data: the data model\<close>

text \<open>
  A shallow embedding of \<^verbatim>\<open>posthog/session_recordings/session_recording_data.py\<close>.

  A \<^verbatim>\<open>datetime\<close> is represented by its number of milliseconds since the epoch. Every
  datetime the module builds is a whole number of milliseconds: it comes from
  \<^verbatim>\<open>parse_snapshot_timestamp\<close> of an integer millisecond timestamp, or from adding or
  subtracting \<^verbatim>\<open>timedelta(milliseconds=1)\<close>. A \<^verbatim>\<open>timedelta\<close> is a number of
  milliseconds as well.

  A Python \<^verbatim>\<open>dict\<close> is an association list in insertion order; a list that stands
  for a dict has distinct keys.
\<close>

type_synonym window_id = string
type_synonym datetime = int

datatype py_error = IndexError | KeyError | ValueError | UnicodeDecodeError

text \<open>
  The values of an event summary's \<^verbatim>\<open>data\<close>: strings and integers, and under the key
  \<^verbatim>\<open>payload\<close> a nested dict of strings and integers.
\<close>

datatype scalar = SInt int | SStr string

datatype summary_value = Scalar scalar | Payload "(string \<times> scalar) list"

record event_summary =
  timestamp :: int
  event_type :: int
  data :: "(string \<times> summary_value) list"

record recording_segment =
  start_time :: datetime
  end_time :: datetime
  window_id :: window_id
  is_active :: bool

record recording_metadata =
  distinct_id :: string
  segments :: "recording_segment list"
  start_and_end_times_by_window_id :: "(window_id \<times> recording_segment) list"
  md_start_time :: datetime
  md_end_time :: datetime
  duration :: int
  click_count :: nat
  keypress_count :: nat
  urls :: "string list"

subsection \<open>The rrweb tables\<close>

text \<open>
  The class \<^verbatim>\<open>RRWEB_MAP_EVENT_DATA_SOURCE\<close>, attribute by attribute, as the source
  writes it.
\<close>

definition RRWEB_MAP_EVENT_DATA_SOURCE :: "(string \<times> int) list" where
  "RRWEB_MAP_EVENT_DATA_SOURCE =
    [(''Mutation'', 0), (''MouseMove'', 1), (''MouseInteraction'', 2), (''Scroll'', 3),
     (''ViewportResize'', 4), (''Input'', 5), (''TouchMove'', 6), (''MediaInteraction'', 7),
     (''StyleSheetRule'', 8), (''CanvasMutation'', 9), (''Font'', 1), (''Log'', 1),
     (''Drag'', 1), (''StyleDeclaration'', 1), (''Selection'', 1)]"

definition EVENT_SUMMARY_DATA_INCLUSIONS :: "string list" where
  "EVENT_SUMMARY_DATA_INCLUSIONS =
    [''type'', ''source'', ''tag'', ''plugin'', ''href'', ''width'', ''height'',
     ''payload.href'', ''payload.level'']"

definition ACTIVITY_THRESHOLD_SECONDS :: int where
  "ACTIVITY_THRESHOLD_SECONDS = 10"

subsection \<open>Dates and durations\<close>

text \<open>
  \<^verbatim>\<open>datetime.fromtimestamp(timestamp / 1000, timezone.utc)\<close>. The division is a
  floating-point division and the result is rounded to a whole microsecond. For a timestamp
  from 0 up to, but not including, \<open>2 ^ 33\<close> seconds (the year 2242) the quotient is
  within half a microsecond of the exact value, so the datetime is exactly the timestamp's
  millisecond. Beyond that the rounding can be off by a microsecond, and beyond the year
  9999 the call raises \<^verbatim>\<open>ValueError\<close>. The model is the conversion on the exact
  range, and the theorems about functions that parse timestamps assume that range.
\<close>

definition parse_snapshot_timestamp :: "int \<Rightarrow> datetime" where
  "parse_snapshot_timestamp ts = ts"

text \<open>
  The timestamps, in milliseconds, that parse exactly: from 0 up to, but not including,
  \<open>2 ^ 33\<close> seconds.
\<close>

definition exact_timestamp :: "int \<Rightarrow> bool" where
  "exact_timestamp ts = (0 \<le> ts \<and> ts < 8589934592000)"


text \<open>\<^verbatim>\<open>timedelta(seconds=n)\<close> and \<^verbatim>\<open>timedelta(milliseconds=n)\<close>, in milliseconds.\<close>

definition timedelta_seconds :: "int \<Rightarrow> int" where
  "timedelta_seconds n = n * 1000"

definition timedelta_milliseconds :: "int \<Rightarrow> int" where
  "timedelta_milliseconds n = n"

text \<open>
  The attribute \<^verbatim>\<open>.seconds\<close> of a timedelta. Python normalises a timedelta to days,
  seconds (from 0 to 86399) and microseconds (from 0 to 999999), rounding the days down;
  \<^verbatim>\<open>.seconds\<close> is the second of the three.
\<close>

definition seconds_attr :: "int \<Rightarrow> int" where
  "seconds_attr d = (d mod 86400000) div 1000"

section \<open>Active events\<close>

definition active_rr_web_sources :: "int list" where
  "active_rr_web_sources = [1, 2, 3, 4, 5, 6, 7, 12]"

text \<open>
  \<^verbatim>\<open>event["type"] == 3 and event["data"].get("source") in active_rr_web_sources\<close>:
  a missing key gives \<^verbatim>\<open>None\<close>, and neither \<^verbatim>\<open>None\<close>, a string nor a dict equals an
  integer of the list.
\<close>

definition is_active_event :: "event_summary \<Rightarrow> bool" where
  "is_active_event event =
    (event_type event = 3 \<and>
     (case map_of (data event) ''source'' of
        Some (Scalar (SInt n)) \<Rightarrow> n \<in> set active_rr_web_sources
      | _ \<Rightarrow> False))"

section \<open>Active segments of one window\<close>

definition new_segment :: "window_id \<Rightarrow> datetime \<Rightarrow> recording_segment" where
  "new_segment w t = \<lparr>start_time = t, end_time = t, window_id = w, is_active = True\<rparr>"

text \<open>
  The loop over \<^verbatim>\<open>active_event_timestamps\<close>. Its state is the list
  \<^verbatim>\<open>active_recording_segments\<close> and the optional \<^verbatim>\<open>current_active_segment\<close>.
\<close>

fun active_loop ::
  "window_id \<Rightarrow> int \<Rightarrow> recording_segment list \<Rightarrow> recording_segment option \<Rightarrow> int list
    \<Rightarrow> recording_segment list \<times> recording_segment option" where
  "active_loop w thr segs cur [] = (segs, cur)"
| "active_loop w thr segs cur (ts # tss) =
    (let current_timestamp = parse_snapshot_timestamp ts in
     case cur of
       None \<Rightarrow> active_loop w thr segs (Some (new_segment w current_timestamp)) tss
     | Some c \<Rightarrow>
         if current_timestamp - end_time c \<le> timedelta_seconds thr
         then active_loop w thr segs (Some (c\<lparr>end_time := current_timestamp\<rparr>)) tss
         else active_loop w thr (segs @ [c]) (Some (new_segment w current_timestamp)) tss)"

definition get_active_segments_from_event_list ::
  "event_summary list \<Rightarrow> window_id \<Rightarrow> int \<Rightarrow> recording_segment list" where
  "get_active_segments_from_event_list event_list w thr =
    (let active_event_timestamps = map timestamp (filter is_active_event event_list) in
     case active_loop w thr [] None active_event_timestamps of
       (segs, None) \<Rightarrow> segs
     | (segs, Some c) \<Rightarrow> if segs = [] \<or> last segs \<noteq> c then segs @ [c] else segs)"

text \<open>
  The walk of the specification, in its own words: the open segment is extended while the
  next active timestamp is at most the threshold after its end; otherwise it is closed and a
  new one opened at that timestamp; the last open segment is flushed.
\<close>

fun walk_open ::
  "window_id \<Rightarrow> int \<Rightarrow> recording_segment \<Rightarrow> int list \<Rightarrow> recording_segment list" where
  "walk_open w thr c [] = [c]"
| "walk_open w thr c (t # ts) =
    (if t - end_time c \<le> thr * 1000 then walk_open w thr (c\<lparr>end_time := t\<rparr>) ts
     else c # walk_open w thr (new_segment w t) ts)"

definition spec_active_segments :: "window_id \<Rightarrow> int \<Rightarrow> int list \<Rightarrow> recording_segment list" where
  "spec_active_segments w thr ts =
    (case ts of [] \<Rightarrow> [] | t # ts' \<Rightarrow> walk_open w thr (new_segment w t) ts')"

text \<open>Segment \<open>b\<close> starts strictly more than \<open>thr\<close> seconds after segment \<open>a\<close> ends.\<close>

definition separated :: "int \<Rightarrow> recording_segment \<Rightarrow> recording_segment \<Rightarrow> bool" where
  "separated thr a b = (end_time a + thr * 1000 < start_time b)"

section \<open>Inactive segments for a range\<close>

type_synonym window_bounds = "(window_id \<times> recording_segment) list"

text \<open>
  \<^verbatim>\<open>sorted(d, key=lambda x: d[x]["start_time"])\<close>: the keys of the dict in a stable
  order of their windows' start times. The entries are sorted and their keys taken, which
  is the same list for a dict.
\<close>

definition window_ids_by_start_time :: "window_bounds \<Rightarrow> window_id list" where
  "window_ids_by_start_time b = map fst (sort_key (\<lambda>kv. start_time (snd kv)) b)"

text \<open>
  The loop over \<^verbatim>\<open>window_id_priority_list\<close>, with the list \<^verbatim>\<open>inactive_segments\<close>
  and the cursor \<^verbatim>\<open>current_time\<close> as its state. A window id that is not a key of the
  dict raises \<^verbatim>\<open>KeyError\<close>.
\<close>

fun inactive_loop ::
  "window_bounds \<Rightarrow> datetime \<Rightarrow> recording_segment list \<Rightarrow> datetime \<Rightarrow> window_id list
    \<Rightarrow> py_error + recording_segment list" where
  "inactive_loop b range_end_time segs current_time [] = Inr segs"
| "inactive_loop b range_end_time segs current_time (w # ws) =
    (case map_of b w of
       None \<Rightarrow> Inl KeyError
     | Some win \<Rightarrow>
         let window_start_time = start_time win; window_end_time = end_time win in
         if window_end_time > current_time \<and> current_time < range_end_time
         then
           let segment_start_time = max window_start_time current_time;
               segment_end_time = min window_end_time range_end_time
           in inactive_loop b range_end_time
                (segs @ [\<lparr>start_time = segment_start_time, end_time = segment_end_time,
                          window_id = w, is_active = False\<rparr>])
                (min segment_end_time window_end_time) ws
         else inactive_loop b range_end_time segs current_time ws)"

text \<open>
  One round of the second loop, which changes the segment at \<open>index\<close> in place. The
  segment before it is read from the list as it is by then.
\<close>

definition adjust_step ::
  "datetime \<Rightarrow> datetime \<Rightarrow> bool \<Rightarrow> bool \<Rightarrow> nat \<Rightarrow> recording_segment list
    \<Rightarrow> recording_segment list" where
  "adjust_step range_start_time range_end_time is_first_segment is_last_segment index segs =
    (let segment = segs ! index;
         segment1 =
           (if (index = 0 \<and> start_time segment = range_start_time \<and> \<not> is_first_segment)
               \<or> (index > 0 \<and> start_time segment = end_time (segs ! (index - 1)))
            then segment\<lparr>start_time := start_time segment + timedelta_milliseconds 1\<rparr>
            else segment);
         segment2 =
           (if Suc index = length segs \<and> end_time segment1 = range_end_time
               \<and> \<not> is_last_segment
            then segment1\<lparr>end_time := end_time segment1 - timedelta_milliseconds 1\<rparr>
            else segment1)
     in segs[index := segment2])"

definition adjust_segments ::
  "datetime \<Rightarrow> datetime \<Rightarrow> bool \<Rightarrow> bool \<Rightarrow> recording_segment list
    \<Rightarrow> recording_segment list" where
  "adjust_segments range_start_time range_end_time is_first_segment is_last_segment segs =
    fold (adjust_step range_start_time range_end_time is_first_segment is_last_segment)
      [0..<length segs] segs"

definition generate_inactive_segments_for_range ::
  "datetime \<Rightarrow> datetime \<Rightarrow> window_id \<Rightarrow> window_bounds \<Rightarrow> bool \<Rightarrow> bool
    \<Rightarrow> py_error + recording_segment list" where
  "generate_inactive_segments_for_range range_start_time range_end_time last_active_window_id
      b is_first_segment is_last_segment =
    (case inactive_loop b range_end_time [] range_start_time
            (last_active_window_id # window_ids_by_start_time b) of
       Inl e \<Rightarrow> Inl e
     | Inr segs \<Rightarrow>
         Inr (adjust_segments range_start_time range_end_time is_first_segment
                is_last_segment segs))"

section \<open>The metadata of a recording\<close>

text \<open>
  The first loop of \<^verbatim>\<open>get_metadata_from_events_summary\<close>, over the items of the dict:
  it collects the active segments of every window and the bounds of every window.
  \<^verbatim>\<open>events_summary[0]\<close> raises \<^verbatim>\<open>IndexError\<close> on an empty list.
\<close>

fun windows_loop ::
  "(window_id \<times> event_summary list) list \<Rightarrow> recording_segment list \<Rightarrow> window_bounds
    \<Rightarrow> py_error + (recording_segment list \<times> window_bounds)" where
  "windows_loop [] all_active b = Inr (all_active, b)"
| "windows_loop ((w, events_summary) # rest) all_active b =
    (let active_segments_for_window_id =
           get_active_segments_from_event_list events_summary w ACTIVITY_THRESHOLD_SECONDS
     in if events_summary = [] then Inl IndexError
        else windows_loop rest (all_active @ active_segments_for_window_id)
               (AList.update w
                  \<lparr>start_time = parse_snapshot_timestamp (timestamp (hd events_summary)),
                   end_time = parse_snapshot_timestamp (timestamp (last events_summary)),
                   window_id = w, is_active = False\<rparr> b))"

text \<open>
  The loop over the sorted active segments, with \<^verbatim>\<open>all_segments\<close>,
  \<^verbatim>\<open>current_timestamp\<close> and \<^verbatim>\<open>current_window_id\<close> as its state.
\<close>

fun segments_loop ::
  "window_bounds \<Rightarrow> nat \<Rightarrow> recording_segment list \<Rightarrow> datetime \<Rightarrow> window_id
    \<Rightarrow> recording_segment list
    \<Rightarrow> py_error + (recording_segment list \<times> datetime \<times> window_id)" where
  "segments_loop b index all_segments current_timestamp current_window_id [] =
    Inr (all_segments, current_timestamp, current_window_id)"
| "segments_loop b index all_segments current_timestamp current_window_id (segment # rest) =
    (case (if start_time segment > current_timestamp
           then generate_inactive_segments_for_range current_timestamp (start_time segment)
                  current_window_id b (index = 0) False
           else Inr []) of
       Inl e \<Rightarrow> Inl e
     | Inr gap \<Rightarrow>
         segments_loop b (Suc index) (all_segments @ gap @ [segment])
           (max (end_time segment) current_timestamp) (window_id segment) rest)"

text \<open>
  Modelled from the spec: \<^verbatim>\<open>posthog.utils.flatten\<close> is not among the sources. The
  specification counts the summaries "across all windows": the lists of the windows, one
  after the other.
\<close>

definition flatten :: "'a list list \<Rightarrow> 'a list" where
  "flatten xss = concat xss"

text \<open>
  \<^verbatim>\<open>len([x for x in all_events_summary if x["type"] == 3 and x["data"]["source"] == k])\<close>.
  The subscript \<^verbatim>\<open>x["data"]["source"]\<close> is evaluated for every summary of type 3 and
  raises \<^verbatim>\<open>KeyError\<close> when the key is missing.
\<close>

fun count_source :: "int \<Rightarrow> event_summary list \<Rightarrow> py_error + nat" where
  "count_source k [] = Inr 0"
| "count_source k (x # xs) =
    (if event_type x = 3
     then (case map_of (data x) ''source'' of
             None \<Rightarrow> Inl KeyError
           | Some v \<Rightarrow>
               (case count_source k xs of
                  Inl e \<Rightarrow> Inl e
                | Inr n \<Rightarrow> Inr (if v = Scalar (SInt k) then Suc n else n)))
     else count_source k xs)"

definition href_urls :: "event_summary list \<Rightarrow> string list" where
  "href_urls xs =
    List.map_filter
      (\<lambda>x. case map_of (data x) ''href'' of Some (Scalar (SStr s)) \<Rightarrow> Some s | _ \<Rightarrow> None) xs"

definition get_metadata_from_events_summary ::
  "(window_id \<times> event_summary list) list \<Rightarrow> py_error + recording_metadata" where
  "get_metadata_from_events_summary events_summary_by_window_id =
    (case windows_loop events_summary_by_window_id [] [] of
       Inl e \<Rightarrow> Inl e
     | Inr (active, b) \<Rightarrow>
         let all_active_segments = sort_key start_time active in
         if b = [] then Inl ValueError
         else
           let first_start_time = Min (set (map (\<lambda>kv. start_time (snd kv)) b));
               last_end_time = Max (set (map (\<lambda>kv. end_time (snd kv)) b))
           in
           (case segments_loop b 0 [] first_start_time (hd (window_ids_by_start_time b))
                   all_active_segments of
              Inl e \<Rightarrow> Inl e
            | Inr (segs, current_timestamp, current_window_id) \<Rightarrow>
                (case (if current_timestamp < last_end_time
                       then generate_inactive_segments_for_range current_timestamp
                              last_end_time current_window_id b
                              (current_timestamp = first_start_time) True
                       else Inr []) of
                   Inl e \<Rightarrow> Inl e
                 | Inr gap \<Rightarrow>
                     let all_events_summary = flatten (map snd events_summary_by_window_id) in
                     (case count_source 2 all_events_summary of
                        Inl e \<Rightarrow> Inl e
                      | Inr clicks \<Rightarrow>
                          (case count_source 5 all_events_summary of
                             Inl e \<Rightarrow> Inl e
                           | Inr keypresses \<Rightarrow>
                               Inr \<lparr>distinct_id = [],
                                    segments = segs @ gap,
                                    start_and_end_times_by_window_id = b,
                                    md_start_time = first_start_time,
                                    md_end_time = last_end_time,
                                    duration = seconds_attr (last_end_time - first_start_time),
                                    click_count = clicks,
                                    keypress_count = keypresses,
                                    urls = href_urls all_events_summary\<rparr>)))))"

section \<open>Event summaries from snapshot data\<close>

text \<open>
  The values of a raw event's \<^verbatim>\<open>data\<close>. A float is kept as a mantissa and an exponent;
  the module only asks for its type and its truth value.
\<close>

datatype json =
  JNull | JBool bool | JInt int | JFloat int int | JStr string
  | JList "json list" | JDict "(string \<times> json) list"

text \<open>
  A raw event: the keys \<^verbatim>\<open>timestamp\<close>, \<^verbatim>\<open>type\<close> and \<^verbatim>\<open>data\<close> may each be missing.
\<close>

record snapshot_data =
  sd_timestamp :: "int option"
  sd_type :: "int option"
  sd_data :: "(string \<times> json) list option"

text \<open>Python's truth value of an object, as \<^verbatim>\<open>if\<close> reads it.\<close>

fun truthy :: "json \<Rightarrow> bool" where
  "truthy JNull = False"
| "truthy (JBool b) = b"
| "truthy (JInt n) = (n \<noteq> 0)"
| "truthy (JFloat m e) = (m \<noteq> 0)"
| "truthy (JStr s) = (s \<noteq> [])"
| "truthy (JList xs) = (xs \<noteq> [])"
| "truthy (JDict kvs) = (kvs \<noteq> [])"

text \<open>\<^verbatim>\<open>type(value) in [str, int]\<close>: a bool is not an int here, its type is \<^verbatim>\<open>bool\<close>.\<close>

fun keep_scalar :: "json \<Rightarrow> scalar option" where
  "keep_scalar (JInt n) = Some (SInt n)"
| "keep_scalar (JStr s) = Some (SStr s)"
| "keep_scalar _ = None"

definition top_level_data :: "(string \<times> json) list \<Rightarrow> (string \<times> summary_value) list" where
  "top_level_data d =
    List.map_filter
      (\<lambda>kv. case keep_scalar (snd kv) of
              Some v \<Rightarrow>
                if fst kv \<in> set EVENT_SUMMARY_DATA_INCLUSIONS
                then Some (fst kv, Scalar v) else None
            | None \<Rightarrow> None) d"

definition payload_data :: "(string \<times> json) list \<Rightarrow> (string \<times> scalar) list" where
  "payload_data p =
    List.map_filter
      (\<lambda>kv. case keep_scalar (snd kv) of
              Some v \<Rightarrow>
                if ''payload.'' @ fst kv \<in> set EVENT_SUMMARY_DATA_INCLUSIONS
                then Some (fst kv, v) else None
            | None \<Rightarrow> None) p"

text \<open>
  The dict \<^verbatim>\<open>data\<close> of one summary. \<^verbatim>\<open>event.get("data", {})\<close> is the empty dict when
  the key is missing; \<^verbatim>\<open>.get("payload")\<close> is \<^verbatim>\<open>None\<close> when that key is missing.
\<close>

definition summary_data :: "(string \<times> json) list option \<Rightarrow> (string \<times> summary_value) list" where
  "summary_data dopt =
    (let d = (case dopt of None \<Rightarrow> [] | Some d \<Rightarrow> d);
         top = top_level_data d
     in case map_of d ''payload'' of
          None \<Rightarrow> top
        | Some pv \<Rightarrow>
            if truthy pv
            then (case pv of
                    JDict p \<Rightarrow> AList.update ''payload'' (Payload (payload_data p)) top
                  | _ \<Rightarrow> top)
            else top)"

definition summarise :: "snapshot_data \<Rightarrow> event_summary option" where
  "summarise event =
    (case sd_timestamp event of
       None \<Rightarrow> None
     | Some t \<Rightarrow>
         (case sd_type event of
            None \<Rightarrow> None
          | Some ty \<Rightarrow>
              Some \<lparr>timestamp = t, event_type = ty, data = summary_data (sd_data event)\<rparr>))"

definition get_events_summary_from_snapshot_data :: "snapshot_data list \<Rightarrow> event_summary list" where
  "get_events_summary_from_snapshot_data snapshot_data =
    sort_key timestamp (List.map_filter summarise snapshot_data)"

section \<open>Compression of snapshot data\<close>

text \<open>
  A Python \<^verbatim>\<open>str\<close> is a list of code points, each below \<open>0x110000\<close>; a surrogate
  (\<open>0xD800\<close> to \<open>0xDFFF\<close>) is a code point like any other. Bytes and UTF-16 code units
  are natural numbers.
\<close>

type_synonym pystr = "nat list"
type_synonym bytes = "nat list"

definition valid_str :: "pystr \<Rightarrow> bool" where
  "valid_str s = list_all (\<lambda>c. c < 0x110000) s"

definition is_high :: "nat \<Rightarrow> bool" where
  "is_high u = (0xD800 \<le> u \<and> u < 0xDC00)"

definition is_low :: "nat \<Rightarrow> bool" where
  "is_low u = (0xDC00 \<le> u \<and> u < 0xE000)"

text \<open>
  \<^verbatim>\<open>str.encode("utf-16", "surrogatepass")\<close>: the byte order mark and the code units in
  little-endian order. A code point below \<open>0x10000\<close> is one code unit, a surrogate
  included (that is what \<^verbatim>\<open>surrogatepass\<close> allows); any other is a surrogate pair.
\<close>

definition units_of_code_point :: "nat \<Rightarrow> nat list" where
  "units_of_code_point c =
    (if c < 0x10000 then [c]
     else [0xD800 + (c - 0x10000) div 0x400, 0xDC00 + (c - 0x10000) mod 0x400])"

definition encode_units :: "pystr \<Rightarrow> nat list" where
  "encode_units s = concat (map units_of_code_point s)"

definition utf16_encode :: "pystr \<Rightarrow> bytes" where
  "utf16_encode s = [0xFF, 0xFE] @ concat (map (\<lambda>u. [u mod 256, u div 256]) (encode_units s))"

text \<open>
  \<^verbatim>\<open>bytes.decode("utf-16", "surrogatepass")\<close>: a byte order mark at the start chooses the
  byte order and is dropped; an odd number of bytes is an error; a high surrogate followed
  by a low surrogate is one code point, and a surrogate on its own is passed through.
\<close>

fun units_of_bytes :: "bool \<Rightarrow> bytes \<Rightarrow> nat list option" where
  "units_of_bytes le [] = Some []"
| "units_of_bytes le [a] = None"
| "units_of_bytes le (a # b # r) =
    map_option ((#) (if le then a + 256 * b else 256 * a + b)) (units_of_bytes le r)"

fun decode_units :: "nat list \<Rightarrow> pystr" where
  "decode_units (u # v # us) =
    (if is_high u \<and> is_low v
     then (0x10000 + (u - 0xD800) * 0x400 + (v - 0xDC00)) # decode_units us
     else u # decode_units (v # us))"
| "decode_units us = us"

definition utf16_decode :: "bytes \<Rightarrow> py_error + pystr" where
  "utf16_decode bs =
    (let (le, body) =
       (case bs of
          a # b # r \<Rightarrow>
            if a = 0xFF \<and> b = 0xFE then (True, r)
            else if a = 0xFE \<and> b = 0xFF then (False, r)
            else (True, bs)
        | _ \<Rightarrow> (True, bs))
     in case units_of_bytes le body of
          None \<Rightarrow> Inl UnicodeDecodeError
        | Some us \<Rightarrow> Inr (decode_units us))"

text \<open>
  \<^verbatim>\<open>compress_to_string\<close> and \<^verbatim>\<open>decompress\<close>. The functions of the \<^verbatim>\<open>gzip\<close> and
  \<^verbatim>\<open>base64\<close> modules are parameters: \<open>b64encode\<close> stands for
  \<^verbatim>\<open>base64.b64encode(...).decode("utf-8")\<close>, from bytes to text.
\<close>

definition compress_to_string ::
  "(bytes \<Rightarrow> bytes) \<Rightarrow> (bytes \<Rightarrow> 'text) \<Rightarrow> pystr \<Rightarrow> 'text" where
  "compress_to_string gzip_compress b64encode json_string =
    (let compressed_data = gzip_compress (utf16_encode json_string)
     in b64encode compressed_data)"

definition decompress ::
  "(bytes \<Rightarrow> py_error + bytes) \<Rightarrow> ('text \<Rightarrow> py_error + bytes) \<Rightarrow> 'text
    \<Rightarrow> py_error + pystr" where
  "decompress gzip_decompress b64decode base64data =
    (case b64decode base64data of
       Inl e \<Rightarrow> Inl e
     | Inr compressed_bytes \<Rightarrow>
         (case gzip_decompress compressed_bytes of
            Inl e \<Rightarrow> Inl e
          | Inr raw \<Rightarrow> utf16_decode raw))"

text \<open>No high surrogate of the string is followed at once by a low surrogate.\<close>

definition no_surrogate_pair :: "pystr \<Rightarrow> bool" where
  "no_surrogate_pair s = successively (\<lambda>a b. \<not> (is_high a \<and> is_low b)) s"

section \<open>The specification's wording\<close>

subsection \<open>Gap filling\<close>

text \<open>
  The walk over the priority list in the specification's words: a cursor \<open>t\<close>, one segment
  from \<open>max window.start_time t\<close> to \<open>min window.end_time range_end\<close> for each window
  that ends after \<open>t\<close> while \<open>t < range_end\<close>, and the cursor moved to that segment's end.
\<close>

fun spec_fill :: "window_bounds \<Rightarrow> datetime \<Rightarrow> datetime \<Rightarrow> window_id list \<Rightarrow> recording_segment list" where
  "spec_fill b range_end t [] = []"
| "spec_fill b range_end t (w # ws) =
    (case map_of b w of
       None \<Rightarrow> spec_fill b range_end t ws
     | Some win \<Rightarrow>
         if end_time win > t \<and> t < range_end
         then \<lparr>start_time = max (start_time win) t, end_time = min (end_time win) range_end,
               window_id = w, is_active = False\<rparr>
              # spec_fill b range_end (min (end_time win) range_end) ws
         else spec_fill b range_end t ws)"

text \<open>
  The boundary adjustments as the specification lists them: the first segment's start and
  the last segment's end, and no other.
\<close>

definition spec_adjust ::
  "datetime \<Rightarrow> datetime \<Rightarrow> bool \<Rightarrow> bool \<Rightarrow> recording_segment list \<Rightarrow> recording_segment list" where
  "spec_adjust range_start range_end at_global_start at_global_end segs =
    map (\<lambda>i.
          let s = segs ! i in
          s\<lparr>start_time :=
               start_time s + (if i = 0 \<and> start_time s = range_start \<and> \<not> at_global_start
                               then 1 else 0),
            end_time :=
               end_time s - (if Suc i = length segs \<and> end_time s = range_end \<and> \<not> at_global_end
                             then 1 else 0)\<rparr>)
      [0..<length segs]"

text \<open>
  The adjustments the code makes, for the segment at index \<open>i\<close>: the start of a later
  segment that begins exactly where the segment before it ends is moved forward as well.
\<close>

definition adjusted ::
  "datetime \<Rightarrow> datetime \<Rightarrow> bool \<Rightarrow> bool \<Rightarrow> recording_segment list \<Rightarrow> nat
    \<Rightarrow> recording_segment" where
  "adjusted range_start range_end at_global_start at_global_end segs i =
    (let s = segs ! i in
     s\<lparr>start_time :=
          start_time s + (if (i = 0 \<and> start_time s = range_start \<and> \<not> at_global_start)
                             \<or> (0 < i \<and> start_time s = end_time (segs ! (i - 1)))
                          then 1 else 0),
       end_time :=
          end_time s - (if Suc i = length segs \<and> end_time s = range_end \<and> \<not> at_global_end
                        then 1 else 0)\<rparr>)"

definition all_adjust ::
  "datetime \<Rightarrow> datetime \<Rightarrow> bool \<Rightarrow> bool \<Rightarrow> recording_segment list \<Rightarrow> recording_segment list" where
  "all_adjust range_start range_end at_global_start at_global_end segs =
    map (adjusted range_start range_end at_global_start at_global_end segs) [0..<length segs]"

text \<open>
  Where the cursor of the walk stands when the segment at index \<open>i\<close> of its result
  \<open>segs\<close> is emitted: at the start \<open>t\<close> of the walk, or at the end of the segment before.
\<close>

definition cursor :: "recording_segment list \<Rightarrow> datetime \<Rightarrow> nat \<Rightarrow> datetime" where
  "cursor segs t i = (if i = 0 then t else end_time (segs ! (i - 1)))"

subsection \<open>Coverage and collisions\<close>

text \<open>Every window starts no later than it ends.\<close>

definition ordered_bounds :: "window_bounds \<Rightarrow> bool" where
  "ordered_bounds b = (\<forall>kv \<in> set b. start_time (snd kv) \<le> end_time (snd kv))"


text \<open>The bounds of a window: the timestamps of its first and of its last summary.\<close>

definition window_bounds_of :: "(window_id \<times> event_summary list) list \<Rightarrow> window_bounds" where
  "window_bounds_of m =
    map (\<lambda>kv. (fst kv,
                \<lparr>start_time = timestamp (hd (snd kv)), end_time = timestamp (last (snd kv)),
                 window_id = fst kv, is_active = False\<rparr>)) m"

definition global_start :: "window_bounds \<Rightarrow> datetime" where
  "global_start b = Min (set (map (\<lambda>kv. start_time (snd kv)) b))"

definition global_end :: "window_bounds \<Rightarrow> datetime" where
  "global_end b = Max (set (map (\<lambda>kv. end_time (snd kv)) b))"

text \<open>The instant \<open>x\<close> lies in one of the segments, ends included.\<close>

definition covered :: "recording_segment list \<Rightarrow> datetime \<Rightarrow> bool" where
  "covered segs x = (\<exists>s \<in> set segs. start_time s \<le> x \<and> x \<le> end_time s)"

text \<open>Some window has begun at the instant \<open>x\<close> and has not yet ended.\<close>

definition alive :: "window_bounds \<Rightarrow> datetime \<Rightarrow> bool" where
  "alive b x = (\<exists>kv \<in> set b. start_time (snd kv) \<le> x \<and> x < end_time (snd kv))"

text \<open>All timestamps of the windows' summaries are in the range that parses exactly.\<close>

definition exact_timestamps :: "(window_id \<times> event_summary list) list \<Rightarrow> bool" where
  "exact_timestamps m = (\<forall>kv \<in> set m. \<forall>e \<in> set (snd kv). exact_timestamp (timestamp e))"

text \<open>
  Segment \<open>a\<close>, the earlier in the list, and segment \<open>b\<close> of the same window are in
  turn: \<open>a\<close> ends strictly before \<open>b\<close> starts.
\<close>

definition in_turn :: "recording_segment \<Rightarrow> recording_segment \<Rightarrow> bool" where
  "in_turn a b = (window_id a = window_id b \<longrightarrow> end_time a < start_time b)"

text \<open>
  Segment \<open>a\<close>, the earlier in the list, and segment \<open>b\<close> are apart: \<open>a\<close> ends
  strictly before \<open>b\<close> starts, or \<open>a\<close> ends no later than \<open>b\<close> starts and \<open>b\<close>
  starts at the global start. Only two active segments of different windows are exempt.
\<close>

definition apart :: "datetime \<Rightarrow> recording_segment \<Rightarrow> recording_segment \<Rightarrow> bool" where
  "apart gs a b =
    ((is_active a \<and> is_active b \<and> window_id a \<noteq> window_id b) \<or> end_time a < start_time b
     \<or> (end_time a \<le> start_time b \<and> start_time b = gs))"

text \<open>
  Two neighbours of the segment list collide when the first ends at the very instant the
  second starts.
\<close>

definition collide :: "recording_segment \<Rightarrow> recording_segment \<Rightarrow> bool" where
  "collide a b = (end_time a = start_time b)"

text \<open>
  The only collisions allowed: between two active segments, or at the global start.
\<close>

definition collision_free :: "datetime \<Rightarrow> recording_segment \<Rightarrow> recording_segment \<Rightarrow> bool" where
  "collision_free gs a b =
    (collide a b \<longrightarrow> (is_active a \<and> is_active b) \<or> start_time b = gs)"

subsection \<open>Event summaries\<close>

text \<open>
  The entry a summary keeps under the key \<open>k\<close>, for the raw \<^verbatim>\<open>data\<close> dict \<open>d\<close>. The
  top-level keys kept are those of \<open>top_keys\<close>; a payload that is a dict is kept with
  its string and integer entries under \<^verbatim>\<open>href\<close> and \<^verbatim>\<open>level\<close>, an empty one only when
  \<open>keep_empty\<close> is set.
\<close>

definition kept_payload :: "(string \<times> json) list \<Rightarrow> string \<Rightarrow> scalar option" where
  "kept_payload p k =
    (if k = ''href'' \<or> k = ''level''
     then (case map_of p k of None \<Rightarrow> None | Some v \<Rightarrow> keep_scalar v)
     else None)"

definition kept_entry ::
  "string list \<Rightarrow> bool \<Rightarrow> (string \<times> json) list \<Rightarrow> string \<Rightarrow> summary_value \<Rightarrow> bool" where
  "kept_entry top_keys keep_empty d k v =
    (if k = ''payload''
     then (case map_of d ''payload'' of
             Some (JDict p) \<Rightarrow>
               (keep_empty \<or> p \<noteq> []) \<and>
               (case v of
                  Payload q \<Rightarrow> distinct (map fst q) \<and> map_of q = kept_payload p
                | Scalar _ \<Rightarrow> False)
           | _ \<Rightarrow> False)
     else k \<in> set top_keys \<and>
          (case map_of d k of
             None \<Rightarrow> False
           | Some x \<Rightarrow> (case keep_scalar x of None \<Rightarrow> False | Some c \<Rightarrow> v = Scalar c)))"

definition spec_top_keys :: "string list" where
  "spec_top_keys = [''type'', ''source'', ''tag'', ''plugin'', ''href'', ''width'', ''height'']"

text \<open>
  The summary \<open>s\<close> is the projection of the raw event \<open>e\<close>: the same timestamp and type,
  every entry of the summary is one to keep, and every entry to keep has its key in the
  summary.
\<close>

definition projects :: "string list \<Rightarrow> bool \<Rightarrow> snapshot_data \<Rightarrow> event_summary \<Rightarrow> bool" where
  "projects top_keys keep_empty e s =
    (let d = (case sd_data e of None \<Rightarrow> [] | Some d \<Rightarrow> d) in
     sd_timestamp e = Some (timestamp s) \<and> sd_type e = Some (event_type s) \<and>
     distinct (map fst (data s)) \<and>
     (\<forall>k v. map_of (data s) k = Some v \<longrightarrow> kept_entry top_keys keep_empty d k v) \<and>
     (\<forall>k v. kept_entry top_keys keep_empty d k v \<longrightarrow> map_of (data s) k \<noteq> None))"

definition has_keys :: "snapshot_data \<Rightarrow> bool" where
  "has_keys e = (sd_timestamp e \<noteq> None \<and> sd_type e \<noteq> None)"

text \<open>The raw event's dicts are dicts: no key twice.\<close>

definition well_formed :: "snapshot_data \<Rightarrow> bool" where
  "well_formed e =
    (case sd_data e of
       None \<Rightarrow> True
     | Some d \<Rightarrow>
         distinct (map fst d) \<and>
         (case map_of d ''payload'' of Some (JDict p) \<Rightarrow> distinct (map fst p) | _ \<Rightarrow> True))"

text \<open>What the two dict comprehensions keep of one item, by its key and its value.\<close>

definition top_entry :: "string \<Rightarrow> json \<Rightarrow> summary_value option" where
  "top_entry k x =
     (case keep_scalar x of
        Some v \<Rightarrow> if k \<in> set EVENT_SUMMARY_DATA_INCLUSIONS then Some (Scalar v) else None
      | None \<Rightarrow> None)"

definition payload_entry :: "string \<Rightarrow> json \<Rightarrow> scalar option" where
  "payload_entry k x =
     (case keep_scalar x of
        Some v \<Rightarrow> if ''payload.'' @ k \<in> set EVENT_SUMMARY_DATA_INCLUSIONS then Some v else None
      | None \<Rightarrow> None)"

section \<open>Proofs\<close>

subsection \<open>Active events\<close>

text \<open>
  C9. An event summary is active exactly when its type is 3 and its \<^verbatim>\<open>data.source\<close> is
  one of the integers 1, 2, 3, 4, 5, 6, 7 and 12. So the sources 8 (StyleSheetRule) and 9
  (CanvasMutation) are never active, 12 is active although the table
  \<^verbatim>\<open>RRWEB_MAP_EVENT_DATA_SOURCE\<close> gives Drag the value 1, and a summary with no
  \<^verbatim>\<open>source\<close> key is never active.
\<close>

theorem is_active_event_iff:
  "(is_active_event e \<longleftrightarrow>
      event_type e = 3 \<and>
      (\<exists>n. map_of (data e) ''source'' = Some (Scalar (SInt n)) \<and>
           n \<in> {1, 2, 3, 4, 5, 6, 7, 12}))
   \<and> is_active_event (e\<lparr>data := (''source'', Scalar (SInt 8)) # d\<rparr>) = False
   \<and> is_active_event (e\<lparr>data := (''source'', Scalar (SInt 9)) # d\<rparr>) = False
   \<and> is_active_event (e\<lparr>event_type := 3, data := (''source'', Scalar (SInt 12)) # d\<rparr>) = True
   \<and> map_of RRWEB_MAP_EVENT_DATA_SOURCE ''Drag'' = Some 1
   \<and> (map_of (data e) ''source'' = None \<longrightarrow> is_active_event e = False)"
  by (auto simp: is_active_event_def active_rr_web_sources_def RRWEB_MAP_EVENT_DATA_SOURCE_def
      split: option.splits summary_value.splits scalar.splits)

theorem is_active_event_iff_witness:
  "is_active_event \<lparr>timestamp = 0, event_type = 3, data = [(''source'', Scalar (SInt 12))]\<rparr>
   \<and> is_active_event \<lparr>timestamp = 0, event_type = 3, data = []\<rparr> = False"
  using is_active_event_iff
    [of "\<lparr>timestamp = 0, event_type = 3, data = [(''source'', Scalar (SInt 12))]\<rparr>" "[]"]
    is_active_event_iff [of "\<lparr>timestamp = 0, event_type = 3, data = []\<rparr>" "[]"]
  by simp

subsection \<open>Active segments of one window\<close>

lemma walk_open_ne: "walk_open w thr c ts \<noteq> []"
  by (induction ts arbitrary: c) auto

lemma hd_walk_open: "start_time (hd (walk_open w thr c ts)) = start_time c"
  by (induction ts arbitrary: c) auto

lemma active_loop_Some:
  "active_loop w thr segs (Some c) ts =
     (segs @ butlast (walk_open w thr c ts), Some (last (walk_open w thr c ts)))"
proof (induction ts arbitrary: segs c)
  case Nil
  then show ?case by simp
next
  case (Cons t ts)
  show ?case
    by (simp add: Cons.IH parse_snapshot_timestamp_def timedelta_seconds_def walk_open_ne)
qed

lemma active_loop_None:
  "active_loop w thr [] None ts =
     (butlast (spec_active_segments w thr ts),
      if ts = [] then None else Some (last (spec_active_segments w thr ts)))"
  by (cases ts) (simp_all add: spec_active_segments_def active_loop_Some parse_snapshot_timestamp_def)

lemma walk_open_set:
  assumes "sorted ts" "\<forall>t \<in> set ts. end_time c \<le> t" "start_time c \<le> end_time c"
    "is_active c" "window_id c = w"
  shows "\<forall>s \<in> set (walk_open w thr c ts). start_time s \<le> end_time s \<and> is_active s \<and> window_id s = w"
  using assms
proof (induction ts arbitrary: c)
  case Nil
  then show ?case by simp
next
  case (Cons t ts)
  have a: "\<forall>s \<in> set (walk_open w thr (c\<lparr>end_time := t\<rparr>) ts).
      start_time s \<le> end_time s \<and> is_active s \<and> window_id s = w"
    using Cons.prems by (intro Cons.IH) auto
  have b: "\<forall>s \<in> set (walk_open w thr (new_segment w t) ts).
      start_time s \<le> end_time s \<and> is_active s \<and> window_id s = w"
    using Cons.prems by (intro Cons.IH) (auto simp: new_segment_def)
  show ?case using a b Cons.prems by auto
qed

lemma walk_open_separated:
  "successively (separated thr) (walk_open w thr c ts)"
proof (induction ts arbitrary: c)
  case Nil
  then show ?case by simp
next
  case (Cons t ts)
  show ?case
  proof (cases "t - end_time c \<le> thr * 1000")
    case True
    then show ?thesis using Cons.IH by simp
  next
    case False
    have "separated thr c (hd (walk_open w thr (new_segment w t) ts))"
      using False by (simp add: separated_def hd_walk_open new_segment_def)
    then show ?thesis
      using False Cons.IH [of "new_segment w t"]
      by (simp add: successively_Cons)
  qed
qed

lemma separated_ascending:
  assumes "successively (separated thr) xs" "\<forall>s \<in> set xs. start_time s \<le> end_time s" "0 \<le> thr"
  shows "sorted_wrt (\<lambda>a b. start_time a < start_time b) xs"
proof -
  have "successively (\<lambda>a b. start_time a < start_time b) xs"
  proof (rule successively_mono [OF assms(1)])
    fix a b
    assume "a \<in> set xs" "b \<in> set xs" "separated thr a b"
    then show "start_time a < start_time b"
      using assms(2,3) by (fastforce simp: separated_def)
  qed
  then show ?thesis
    by (subst (asm) successively_conv_sorted_wrt) (auto simp: transp_def)
qed

lemma ascending_distinct:
  "sorted_wrt (\<lambda>a b. start_time a < start_time b) xs \<Longrightarrow> distinct xs"
  by (induction xs) auto

lemma spec_active_segments_props:
  assumes "sorted ts"
  shows "(\<forall>s \<in> set (spec_active_segments w thr ts).
            start_time s \<le> end_time s \<and> is_active s \<and> window_id s = w)
         \<and> successively (separated thr) (spec_active_segments w thr ts)"
proof (cases ts)
  case Nil
  then show ?thesis by (simp add: spec_active_segments_def)
next
  case (Cons t ts')
  have "\<forall>s \<in> set (walk_open w thr (new_segment w t) ts').
      start_time s \<le> end_time s \<and> is_active s \<and> window_id s = w"
    using assms Cons by (intro walk_open_set) (auto simp: new_segment_def)
  then show ?thesis
    using Cons by (simp add: spec_active_segments_def walk_open_separated)
qed

lemma last_butlast_distinct:
  assumes "distinct xs" "butlast xs \<noteq> []"
  shows "last (butlast xs) \<noteq> last xs"
proof -
  have ne: "xs \<noteq> []" using assms(2) by auto
  have "distinct (butlast xs @ [last xs])" using assms(1) ne by simp
  then have "last xs \<notin> set (butlast xs)" by simp
  moreover have "last (butlast xs) \<in> set (butlast xs)" using assms(2) by simp
  ultimately show ?thesis by metis
qed

lemma sorted_active_timestamps:
  "sorted (map timestamp evs) \<Longrightarrow> sorted (map timestamp (filter is_active_event evs))"
  by (induction evs) auto

lemma get_active_eq_spec:
  assumes "sorted (map timestamp evs)" "0 \<le> thr"
  shows "get_active_segments_from_event_list evs w thr =
         spec_active_segments w thr (map timestamp (filter is_active_event evs))"
proof -
  let ?ts = "map timestamp (filter is_active_event evs)"
  let ?W = "spec_active_segments w thr ?ts"
  have st: "sorted ?ts" using assms(1) by (rule sorted_active_timestamps)
  show ?thesis
  proof (cases "?ts = []")
    case True
    then show ?thesis
      by (simp add: get_active_segments_from_event_list_def active_loop_None spec_active_segments_def)
  next
    case False
    then obtain t ts' where ts: "?ts = t # ts'" by (cases ?ts) auto
    have Wne: "?W \<noteq> []" using ts by (simp add: spec_active_segments_def walk_open_ne)
    have pr: "(\<forall>s \<in> set ?W. start_time s \<le> end_time s) \<and> successively (separated thr) ?W"
      using spec_active_segments_props [OF st, of w thr] by blast
    have "sorted_wrt (\<lambda>a b. start_time a < start_time b) ?W"
      using pr assms(2) separated_ascending by blast
    then have "distinct ?W"
      by (rule ascending_distinct)
    then have guard: "butlast ?W = [] \<or> last (butlast ?W) \<noteq> last ?W"
      using last_butlast_distinct by blast
    have "get_active_segments_from_event_list evs w thr = butlast ?W @ [last ?W]"
      using False guard
      by (auto simp add: get_active_segments_from_event_list_def active_loop_None Let_def)
    then show ?thesis using Wne by simp
  qed
qed


text \<open>
  C4. On a list sorted by timestamp, the active segments are those of the walk over the
  active timestamps: the open segment is extended to a timestamp at most the threshold
  after its end, otherwise closed and a new one opened there, and the last open segment is
  flushed. No active event gives no segment; one active event gives one segment that starts
  and ends at its timestamp. The threshold is not negative, and every timestamp is in the
  range that parses exactly.
\<close>

theorem get_active_segments_walk:
  assumes srt: "sorted (map timestamp evs)" and thr: "0 \<le> thr"
    and exact: "\<forall>e \<in> set evs. exact_timestamp (timestamp e)"
  shows "get_active_segments_from_event_list evs w thr =
           spec_active_segments w thr (map timestamp (filter is_active_event evs))
         \<and> (filter is_active_event evs = [] \<longrightarrow>
              get_active_segments_from_event_list evs w thr = [])
         \<and> (\<forall>e. filter is_active_event evs = [e] \<longrightarrow>
              get_active_segments_from_event_list evs w thr =
                [\<lparr>start_time = timestamp e, end_time = timestamp e, window_id = w,
                  is_active = True\<rparr>])"
  using get_active_eq_spec [OF srt thr, of w]
  by (simp add: spec_active_segments_def new_segment_def)

theorem get_active_segments_walk_witness:
  "sorted (map timestamp
      [\<lparr>timestamp = 0, event_type = 3, data = [(''source'', Scalar (SInt 1))]\<rparr>,
       \<lparr>timestamp = 5000, event_type = 3, data = [(''source'', Scalar (SInt 2))]\<rparr>,
       \<lparr>timestamp = 6000, event_type = 2, data = []\<rparr>,
       \<lparr>timestamp = 30000, event_type = 3, data = [(''source'', Scalar (SInt 5))]\<rparr>])
   \<and> get_active_segments_from_event_list
      [\<lparr>timestamp = 0, event_type = 3, data = [(''source'', Scalar (SInt 1))]\<rparr>,
       \<lparr>timestamp = 5000, event_type = 3, data = [(''source'', Scalar (SInt 2))]\<rparr>,
       \<lparr>timestamp = 6000, event_type = 2, data = []\<rparr>,
       \<lparr>timestamp = 30000, event_type = 3, data = [(''source'', Scalar (SInt 5))]\<rparr>]
      ''w'' 10 =
     [\<lparr>start_time = 0, end_time = 5000, window_id = ''w'', is_active = True\<rparr>,
      \<lparr>start_time = 30000, end_time = 30000, window_id = ''w'', is_active = True\<rparr>]"
  using get_active_segments_walk
    [of "[\<lparr>timestamp = 0, event_type = 3, data = [(''source'', Scalar (SInt 1))]\<rparr>,
       \<lparr>timestamp = 5000, event_type = 3, data = [(''source'', Scalar (SInt 2))]\<rparr>,
       \<lparr>timestamp = 6000, event_type = 2, data = []\<rparr>,
       \<lparr>timestamp = 30000, event_type = 3, data = [(''source'', Scalar (SInt 5))]\<rparr>]"
      10 "''w''"]
  by (simp add: is_active_event_def active_rr_web_sources_def spec_active_segments_def
      new_segment_def exact_timestamp_def)

text \<open>
  C10. On a list sorted by timestamp, every active segment has its start no later than its
  end and is marked active, the segments are in strictly ascending order of start time, and
  each starts strictly more than the threshold after the end of the one before it. The
  threshold is not negative.
\<close>

theorem active_segments_invariants:
  assumes "sorted (map timestamp evs)" and "0 \<le> thr"
  shows "(\<forall>s \<in> set (get_active_segments_from_event_list evs w thr).
            start_time s \<le> end_time s \<and> is_active s)
         \<and> sorted_wrt (\<lambda>a b. start_time a < start_time b)
              (get_active_segments_from_event_list evs w thr)
         \<and> successively (separated thr) (get_active_segments_from_event_list evs w thr)"
proof -
  let ?ts = "map timestamp (filter is_active_event evs)"
  have eq: "get_active_segments_from_event_list evs w thr = spec_active_segments w thr ?ts"
    using assms by (rule get_active_eq_spec)
  have pr: "(\<forall>s \<in> set (spec_active_segments w thr ?ts).
               start_time s \<le> end_time s \<and> is_active s \<and> window_id s = w)
            \<and> successively (separated thr) (spec_active_segments w thr ?ts)"
    using assms(1) by (intro spec_active_segments_props sorted_active_timestamps)
  then have "sorted_wrt (\<lambda>a b. start_time a < start_time b) (spec_active_segments w thr ?ts)"
    using assms(2) separated_ascending by blast
  with pr show ?thesis unfolding eq by blast
qed

theorem active_segments_invariants_witness:
  "sorted (map timestamp
      [\<lparr>timestamp = 0, event_type = 3, data = [(''source'', Scalar (SInt 1))]\<rparr>,
       \<lparr>timestamp = 5000, event_type = 3, data = [(''source'', Scalar (SInt 2))]\<rparr>,
       \<lparr>timestamp = 30000, event_type = 3, data = [(''source'', Scalar (SInt 5))]\<rparr>])
   \<and> successively (separated 10)
     (get_active_segments_from_event_list
      [\<lparr>timestamp = 0, event_type = 3, data = [(''source'', Scalar (SInt 1))]\<rparr>,
       \<lparr>timestamp = 5000, event_type = 3, data = [(''source'', Scalar (SInt 2))]\<rparr>,
       \<lparr>timestamp = 30000, event_type = 3, data = [(''source'', Scalar (SInt 5))]\<rparr>]
      ''w'' 10)
   \<and> length (get_active_segments_from_event_list
      [\<lparr>timestamp = 0, event_type = 3, data = [(''source'', Scalar (SInt 1))]\<rparr>,
       \<lparr>timestamp = 5000, event_type = 3, data = [(''source'', Scalar (SInt 2))]\<rparr>,
       \<lparr>timestamp = 30000, event_type = 3, data = [(''source'', Scalar (SInt 5))]\<rparr>]
      ''w'' 10) = 2"
proof -
  let ?E = "[\<lparr>timestamp = 0, event_type = 3, data = [(''source'', Scalar (SInt 1))]\<rparr>,
       \<lparr>timestamp = 5000, event_type = 3, data = [(''source'', Scalar (SInt 2))]\<rparr>,
       \<lparr>timestamp = 30000, event_type = 3, data = [(''source'', Scalar (SInt 5))]\<rparr>]"
  have s: "sorted (map timestamp ?E)" by simp
  have n: "length (get_active_segments_from_event_list ?E ''w'' 10) = 2"
    by (simp add: get_active_segments_from_event_list_def is_active_event_def
        active_rr_web_sources_def new_segment_def parse_snapshot_timestamp_def
        timedelta_seconds_def)
  show ?thesis
    using s n active_segments_invariants [OF s, of 10 "''w''"] by simp
qed

subsection \<open>Inactive segments for a range\<close>

lemma window_ids_are_keys: "set (window_ids_by_start_time b) = fst ` set b"
  by (simp add: window_ids_by_start_time_def)

lemma inactive_loop_eq:
  "\<forall>w \<in> set ws. w \<in> fst ` set b \<Longrightarrow>
   inactive_loop b re segs t ws = Inr (segs @ spec_fill b re t ws)"
proof (induction ws arbitrary: segs t)
  case Nil
  then show ?case by simp
next
  case (Cons w ws)
  from Cons.prems obtain win where win: "map_of b w = Some win"
    by (cases "map_of b w") (auto simp: map_of_eq_None_iff)
  have rest: "\<forall>w \<in> set ws. w \<in> fst ` set b" using Cons.prems by simp
  show ?case
    using win Cons.IH [OF rest] by (simp add: Let_def)
qed

lemma inactive_loop_KeyError:
  "w \<notin> fst ` set b \<Longrightarrow> inactive_loop b re segs t (w # ws) = Inl KeyError"
  by (simp add: map_of_eq_None_iff [THEN iffD2])


lemma adjust_step_eq:
  assumes len: "length L = length segs"
    and atk: "L ! k = segs ! k"
    and prev: "0 < k \<Longrightarrow> end_time (L ! (k - 1)) = end_time (segs ! (k - 1))"
  shows "adjust_step rs re f l k L = L[k := adjusted rs re f l segs k]"
proof (cases "k = 0")
  case True
  then have "L ! 0 = segs ! 0" using atk by simp
  then show ?thesis
    using True len
    by (simp add: adjust_step_def adjusted_def Let_def timedelta_milliseconds_def)
next
  case False
  then have e: "end_time (L ! (k - 1)) = end_time (segs ! (k - 1))" using prev by simp
  show ?thesis
    using False len atk e
    by (simp add: adjust_step_def adjusted_def Let_def timedelta_milliseconds_def)
qed

lemma fold_adjust_step:
  "k \<le> length segs \<Longrightarrow>
   fold (adjust_step rs re f l) [0..<k] segs =
     map (adjusted rs re f l segs) [0..<k] @ drop k segs"
proof (induction k)
  case 0
  then show ?case by simp
next
  case (Suc k)
  define A where "A = map (adjusted rs re f l segs) [0..<k]"
  define L where "L = A @ drop k segs"
  have k: "k < length segs" using Suc.prems by simp
  have lenA: "length A = k" by (simp add: A_def)
  have IH: "fold (adjust_step rs re f l) [0..<k] segs = L"
    using Suc by (simp add: L_def A_def)
  have len: "length L = length segs" using k by (simp add: L_def lenA)
  have atk: "L ! k = segs ! k" using k by (simp add: L_def nth_append lenA)
  have prev: "end_time (L ! (k - 1)) = end_time (segs ! (k - 1))" if "0 < k"
  proof -
    have "L ! (k - 1) = adjusted rs re f l segs (k - 1)"
      using that by (simp add: L_def nth_append lenA A_def)
    moreover have "Suc (k - 1) \<noteq> length segs" using that k by simp
    ultimately show ?thesis by (simp add: adjusted_def Let_def)
  qed
  have step: "adjust_step rs re f l k L = L[k := adjusted rs re f l segs k]"
    using len atk prev by (rule adjust_step_eq)
  have "L[k := adjusted rs re f l segs k] = A @ (drop k segs)[0 := adjusted rs re f l segs k]"
    by (simp add: L_def list_update_append lenA)
  also have "drop k segs = segs ! k # drop (Suc k) segs"
    using k by (simp add: Cons_nth_drop_Suc)
  finally have upd: "L[k := adjusted rs re f l segs k] =
      map (adjusted rs re f l segs) [0..<Suc k] @ drop (Suc k) segs"
    by (simp add: A_def)
  have "fold (adjust_step rs re f l) [0..<Suc k] segs = adjust_step rs re f l k L"
    using IH by simp
  then show ?case using step upd by simp
qed

lemma adjust_segments_eq:
  "adjust_segments rs re f l segs = all_adjust rs re f l segs"
  using fold_adjust_step [of "length segs" segs rs re f l]
  by (simp add: adjust_segments_def all_adjust_def)


lemma window_ids_sorted:
  "\<exists>L. mset L = mset b \<and> sorted (map (\<lambda>kv. start_time (snd kv)) L)
       \<and> window_ids_by_start_time b = map fst L"
  by (rule exI [of _ "sort_key (\<lambda>kv. start_time (snd kv)) b"])
     (simp add: window_ids_by_start_time_def)

text \<open>
  C3. The priority list is the preferred window id followed by all window ids in ascending
  order of their windows' start times. The walk over it keeps a cursor that starts at the
  range's start; each window that ends after the cursor, while the cursor is before the
  range's end, gives one inactive segment from the later of the window's start and the
  cursor to the earlier of the window's end and the range's end, and moves the cursor to
  that segment's end. Afterwards the first segment's start is moved forward one millisecond
  when it equals the range's start and the call is not at the global start, the start of
  every later segment that equals the end of the segment before it is moved forward one
  millisecond, and the last segment's end is moved back one millisecond when it equals the
  range's end and the call is not at the global end. A preferred window id that is not a
  key of the bounds raises \<^verbatim>\<open>KeyError\<close>.
\<close>

theorem generate_inactive_segments_for_range_eq:
  "generate_inactive_segments_for_range rs re last_w b at_start at_end =
     (if last_w \<in> fst ` set b
      then Inr (all_adjust rs re at_start at_end
                  (spec_fill b re rs (last_w # window_ids_by_start_time b)))
      else Inl KeyError)
   \<and> (\<exists>L. mset L = mset b \<and> sorted (map (\<lambda>kv. start_time (snd kv)) L)
          \<and> window_ids_by_start_time b = map fst L)"
proof -
  have "inactive_loop b re [] rs (last_w # window_ids_by_start_time b) =
          Inr ([] @ spec_fill b re rs (last_w # window_ids_by_start_time b))"
    if "last_w \<in> fst ` set b"
    using that by (intro inactive_loop_eq) (simp add: window_ids_are_keys)
  then show ?thesis
    using inactive_loop_KeyError [of last_w b re "[]" rs "window_ids_by_start_time b"]
      window_ids_sorted [of b]
    by (simp add: generate_inactive_segments_for_range_def adjust_segments_eq)
qed

theorem generate_inactive_segments_for_range_eq_witness:
  "generate_inactive_segments_for_range 5 20 ''A''
     [(''A'', \<lparr>start_time = 0, end_time = 10, window_id = ''A'', is_active = False\<rparr>),
      (''B'', \<lparr>start_time = 0, end_time = 30, window_id = ''B'', is_active = False\<rparr>)]
     False False =
   Inr (all_adjust 5 20 False False
     [\<lparr>start_time = 5, end_time = 10, window_id = ''A'', is_active = False\<rparr>,
      \<lparr>start_time = 10, end_time = 20, window_id = ''B'', is_active = False\<rparr>])"
proof -
  have "spec_fill
     [(''A'', \<lparr>start_time = 0, end_time = 10, window_id = ''A'', is_active = False\<rparr>),
      (''B'', \<lparr>start_time = 0, end_time = 30, window_id = ''B'', is_active = False\<rparr>)]
     20 5 (''A'' # window_ids_by_start_time
     [(''A'', \<lparr>start_time = 0, end_time = 10, window_id = ''A'', is_active = False\<rparr>),
      (''B'', \<lparr>start_time = 0, end_time = 30, window_id = ''B'', is_active = False\<rparr>)]) =
     [\<lparr>start_time = 5, end_time = 10, window_id = ''A'', is_active = False\<rparr>,
      \<lparr>start_time = 10, end_time = 20, window_id = ''B'', is_active = False\<rparr>]"
    by code_simp
  then show ?thesis
    using generate_inactive_segments_for_range_eq
      [of 5 20 "''A''"
        "[(''A'', \<lparr>start_time = 0, end_time = 10, window_id = ''A'', is_active = False\<rparr>),
          (''B'', \<lparr>start_time = 0, end_time = 30, window_id = ''B'', is_active = False\<rparr>)]"
        False False]
    by simp
qed

text \<open>
  The claim as the specification words it, with the first start and the last end as the
  only adjustments, fails: window A from 0 to 10 and window B from 0 to 30, the range from
  5 to 20, A preferred, not at the global start or end. The second segment starts where the
  first ends, and the code moves its start from 10 to 11.
\<close>

theorem generate_inactive_segments_counterexample:
  "generate_inactive_segments_for_range 5 20 ''A''
     [(''A'', \<lparr>start_time = 0, end_time = 10, window_id = ''A'', is_active = False\<rparr>),
      (''B'', \<lparr>start_time = 0, end_time = 30, window_id = ''B'', is_active = False\<rparr>)]
     False False =
   Inr [\<lparr>start_time = 6, end_time = 10, window_id = ''A'', is_active = False\<rparr>,
        \<lparr>start_time = 11, end_time = 19, window_id = ''B'', is_active = False\<rparr>]
   \<and> spec_adjust 5 20 False False
       (spec_fill
         [(''A'', \<lparr>start_time = 0, end_time = 10, window_id = ''A'', is_active = False\<rparr>),
          (''B'', \<lparr>start_time = 0, end_time = 30, window_id = ''B'', is_active = False\<rparr>)]
         20 5
         (''A'' # window_ids_by_start_time
           [(''A'', \<lparr>start_time = 0, end_time = 10, window_id = ''A'', is_active = False\<rparr>),
            (''B'', \<lparr>start_time = 0, end_time = 30, window_id = ''B'', is_active = False\<rparr>)])) =
     [\<lparr>start_time = 6, end_time = 10, window_id = ''A'', is_active = False\<rparr>,
      \<lparr>start_time = 10, end_time = 19, window_id = ''B'', is_active = False\<rparr>]"
  by code_simp

subsection \<open>Event summaries from snapshot data\<close>

lemma insort_key_map:
  "insort_key f (g x) (map g xs) = map g (insort_key (\<lambda>y. f (g y)) x xs)"
  by (induction xs) auto

lemma sort_key_map: "sort_key f (map g xs) = map g (sort_key (\<lambda>y. f (g y)) xs)"
  by (induction xs) (auto simp: insort_key_map)

text \<open>A dict comprehension over the items of a dict, as a lookup.\<close>

lemma map_of_comprehension:
  assumes "distinct (map fst xs)"
  shows "map_of (List.map_filter (\<lambda>kv. map_option (Pair (fst kv)) (g (fst kv) (snd kv))) xs) k =
           (case map_of xs k of None \<Rightarrow> None | Some x \<Rightarrow> g k x)"
  using assms
proof (induction xs)
  case Nil
  then show ?case by simp
next
  case (Cons kv xs)
  obtain k' x where kv: "kv = (k', x)" by (cases kv)
  have notin: "map_of xs k' = None"
    using Cons.prems kv by (simp add: map_of_eq_None_iff)
  show ?case
  proof (cases "k = k'")
    case True
    show ?thesis
    proof (cases "g k' x")
      case None
      then show ?thesis using Cons kv True notin by simp
    next
      case (Some y)
      then show ?thesis using kv True by simp
    qed
  next
    case False
    then show ?thesis using Cons kv by (cases "g k' x") auto
  qed
qed

lemma keys_comprehension:
  "fst ` set (List.map_filter (\<lambda>kv. map_option (Pair (fst kv)) (g (fst kv) (snd kv))) xs)
     \<subseteq> fst ` set xs"
  by (induction xs) (auto split: option.splits)

lemma distinct_comprehension:
  "distinct (map fst xs) \<Longrightarrow>
   distinct (map fst (List.map_filter (\<lambda>kv. map_option (Pair (fst kv)) (g (fst kv) (snd kv))) xs))"
proof (induction xs)
  case Nil
  then show ?case by simp
next
  case (Cons kv xs)
  have "fst kv \<notin> fst ` set (List.map_filter (\<lambda>kv. map_option (Pair (fst kv)) (g (fst kv) (snd kv))) xs)"
    using Cons.prems keys_comprehension [of g xs] by auto
  then show ?case using Cons by (cases "g (fst kv) (snd kv)") auto
qed

lemma top_level_data_alt:
  "top_level_data d =
     List.map_filter (\<lambda>kv. map_option (Pair (fst kv)) (top_entry (fst kv) (snd kv))) d"
proof -
  have "(\<lambda>kv. case keep_scalar (snd kv) of
              Some v \<Rightarrow> if fst kv \<in> set EVENT_SUMMARY_DATA_INCLUSIONS
                        then Some (fst kv, Scalar v) else None
            | None \<Rightarrow> None) =
        (\<lambda>kv. map_option (Pair (fst kv)) (top_entry (fst kv) (snd kv)))"
    by (rule ext) (simp add: top_entry_def split: option.splits)
  then show ?thesis by (simp add: top_level_data_def)
qed

lemma payload_data_alt:
  "payload_data p =
     List.map_filter (\<lambda>kv. map_option (Pair (fst kv)) (payload_entry (fst kv) (snd kv))) p"
proof -
  have "(\<lambda>kv. case keep_scalar (snd kv) of
              Some v \<Rightarrow> if ''payload.'' @ fst kv \<in> set EVENT_SUMMARY_DATA_INCLUSIONS
                        then Some (fst kv, v) else None
            | None \<Rightarrow> None) =
        (\<lambda>kv. map_option (Pair (fst kv)) (payload_entry (fst kv) (snd kv)))"
    by (rule ext) (simp add: payload_entry_def split: option.splits)
  then show ?thesis by (simp add: payload_data_def)
qed

lemma payload_key_iff:
  "''payload.'' @ k \<in> set EVENT_SUMMARY_DATA_INCLUSIONS \<longleftrightarrow> k = ''href'' \<or> k = ''level''"
  by (auto simp: EVENT_SUMMARY_DATA_INCLUSIONS_def)

lemma payload_entry_alt:
  "payload_entry k x = (if k = ''href'' \<or> k = ''level'' then keep_scalar x else None)"
  unfolding payload_entry_def payload_key_iff by (simp split: option.splits)

lemma payload_not_top: "''payload'' \<notin> set EVENT_SUMMARY_DATA_INCLUSIONS"
  by (simp add: EVENT_SUMMARY_DATA_INCLUSIONS_def)

lemma map_of_payload_data:
  assumes "distinct (map fst p)"
  shows "map_of (payload_data p) = kept_payload p"
proof (rule ext)
  fix k
  have "map_of (payload_data p) k =
          (case map_of p k of None \<Rightarrow> None | Some x \<Rightarrow> payload_entry k x)"
    unfolding payload_data_alt using assms by (rule map_of_comprehension)
  also have "\<dots> = kept_payload p k"
    by (cases "k = ''href'' \<or> k = ''level''")
       (simp_all add: kept_payload_def payload_entry_alt split: option.splits)
  finally show "map_of (payload_data p) k = kept_payload p k" .
qed

lemma distinct_payload_data:
  "distinct (map fst p) \<Longrightarrow> distinct (map fst (payload_data p))"
  by (simp add: payload_data_alt distinct_comprehension)

lemma map_of_top_level_data:
  assumes "distinct (map fst d)"
  shows "map_of (top_level_data d) k =
           (case map_of d k of None \<Rightarrow> None | Some x \<Rightarrow> top_entry k x)"
  unfolding top_level_data_alt using assms by (rule map_of_comprehension)

lemma distinct_top_level_data:
  "distinct (map fst d) \<Longrightarrow> distinct (map fst (top_level_data d))"
  by (simp add: top_level_data_alt distinct_comprehension)

lemma truthy_dict: "(truthy pv \<and> (\<exists>p. pv = JDict p)) \<longleftrightarrow> (\<exists>p. pv = JDict p \<and> p \<noteq> [])"
  by (cases pv) auto

lemma summary_data_cases:
  "summary_data dopt =
     (let d = (case dopt of None \<Rightarrow> [] | Some d \<Rightarrow> d) in
      case map_of d ''payload'' of
        Some (JDict p) \<Rightarrow>
          if p \<noteq> [] then AList.update ''payload'' (Payload (payload_data p)) (top_level_data d)
          else top_level_data d
      | _ \<Rightarrow> top_level_data d)"
  by (simp add: summary_data_def Let_def split: option.splits json.splits)

lemma top_no_payload:
  assumes "distinct (map fst d)"
  shows "map_of (top_level_data d) ''payload'' = None"
  using map_of_top_level_data [OF assms, of "''payload''"] payload_not_top
  by (simp add: top_entry_def split: option.splits)

lemma map_of_summary_data:
  assumes "distinct (map fst d)"
  shows "map_of (summary_data (Some d)) k =
     (if k = ''payload''
      then (case map_of d ''payload'' of
              Some (JDict p) \<Rightarrow> if p \<noteq> [] then Some (Payload (payload_data p)) else None
            | _ \<Rightarrow> None)
      else (case map_of d k of None \<Rightarrow> None | Some x \<Rightarrow> top_entry k x))"
proof (cases "k = ''payload''")
  case True
  show ?thesis
    using top_no_payload [OF assms] True
    by (simp add: summary_data_cases update_conv' split: option.splits json.splits)
next
  case False
  have "map_of (summary_data (Some d)) k = map_of (top_level_data d) k"
    using False
    by (simp add: summary_data_cases update_conv' split: option.splits json.splits)
  then show ?thesis
    using False map_of_top_level_data [OF assms, of k] by simp
qed

lemma distinct_summary_data:
  assumes "distinct (map fst d)"
  shows "distinct (map fst (summary_data (Some d)))"
  using distinct_top_level_data [OF assms]
  by (simp add: summary_data_cases distinct_update split: option.splits json.splits)

lemma summary_data_None: "summary_data None = summary_data (Some [])"
  by (simp add: summary_data_def)

lemma top_entry_kept:
  "(top_entry k x = Some v) \<longleftrightarrow>
     (k \<in> set EVENT_SUMMARY_DATA_INCLUSIONS \<and>
      (case keep_scalar x of None \<Rightarrow> False | Some c \<Rightarrow> v = Scalar c))"
  by (auto simp: top_entry_def split: option.splits)

lemma summary_data_kept:
  assumes d: "distinct (map fst d)"
    and p: "\<And>p. map_of d ''payload'' = Some (JDict p) \<Longrightarrow> distinct (map fst p)"
  shows "map_of (summary_data (Some d)) k = Some v \<Longrightarrow>
           kept_entry EVENT_SUMMARY_DATA_INCLUSIONS False d k v"
    and "kept_entry EVENT_SUMMARY_DATA_INCLUSIONS False d k v \<Longrightarrow>
           map_of (summary_data (Some d)) k \<noteq> None"
proof -
  assume a: "map_of (summary_data (Some d)) k = Some v"
  show "kept_entry EVENT_SUMMARY_DATA_INCLUSIONS False d k v"
  proof (cases "k = ''payload''")
    case True
    with a obtain q where q: "map_of d ''payload'' = Some (JDict q)" "q \<noteq> []"
        "v = Payload (payload_data q)"
      by (auto simp: map_of_summary_data [OF d] split: option.splits json.splits if_splits)
    have "distinct (map fst q)" using p q(1) by simp
    then show ?thesis
      using True q by (simp add: kept_entry_def distinct_payload_data map_of_payload_data)
  next
    case False
    with a obtain x where x: "map_of d k = Some x" "top_entry k x = Some v"
      by (auto simp: map_of_summary_data [OF d] split: option.splits)
    then show ?thesis
      using False by (simp add: kept_entry_def top_entry_kept)
  qed
next
  assume a: "kept_entry EVENT_SUMMARY_DATA_INCLUSIONS False d k v"
  show "map_of (summary_data (Some d)) k \<noteq> None"
  proof (cases "k = ''payload''")
    case True
    with a show ?thesis
      by (auto simp: kept_entry_def map_of_summary_data [OF d]
          split: option.splits json.splits)
  next
    case False
    with a obtain x where x: "map_of d k = Some x" "top_entry k x = Some v"
      by (auto simp: kept_entry_def top_entry_kept split: option.splits)
    then show ?thesis
      using False by (simp add: map_of_summary_data [OF d])
  qed
qed

lemma summarise_projects:
  assumes "well_formed e" and "summarise e = Some s"
  shows "projects EVENT_SUMMARY_DATA_INCLUSIONS False e s"
proof -
  define d where "d = (case sd_data e of None \<Rightarrow> [] | Some d \<Rightarrow> d)"
  have dd: "distinct (map fst d)"
    using assms(1) by (simp add: d_def well_formed_def split: option.splits)
  have pp: "distinct (map fst p)" if "map_of d ''payload'' = Some (JDict p)" for p
    using assms(1) that by (auto simp: d_def well_formed_def split: option.splits)
  have sd: "summary_data (sd_data e) = summary_data (Some d)"
    by (simp add: d_def summary_data_None split: option.splits)
  have s: "sd_timestamp e = Some (timestamp s)" "sd_type e = Some (event_type s)"
      "data s = summary_data (Some d)"
    using assms(2) sd by (auto simp: summarise_def split: option.splits)
  show ?thesis
    unfolding projects_def Let_def d_def [symmetric] s(3)
    using s(1,2) distinct_summary_data [OF dd] summary_data_kept [OF dd pp]
    by blast
qed

lemma summarise_has_keys: "(\<exists>y. summarise e = Some y) = has_keys e"
  by (simp add: summarise_def has_keys_def split: option.splits)

text \<open>
  C8. The result is sorted by timestamp and holds one summary for each input event that has
  both a timestamp and a type. A summary's data keeps the top-level entries whose value is
  a string or an integer and whose key is in the inclusion list (the seven plain keys and
  also \<^verbatim>\<open>payload.href\<close> and \<^verbatim>\<open>payload.level\<close>), and, when the payload is a dict that is
  not empty, a nested payload with its string and integer entries under \<^verbatim>\<open>href\<close> and
  \<^verbatim>\<open>level\<close>.
\<close>

theorem get_events_summary_projects:
  assumes "\<forall>e \<in> set snapshot_data. well_formed e"
  shows "sorted (map timestamp (get_events_summary_from_snapshot_data snapshot_data))
    \<and> (\<exists>es. mset es = mset (filter has_keys snapshot_data)
          \<and> list_all2 (projects EVENT_SUMMARY_DATA_INCLUSIONS False) es
               (get_events_summary_from_snapshot_data snapshot_data))"
proof -
  define g where "g = the \<circ> summarise"
  define es where "es = sort_key (\<lambda>e. timestamp (g e)) (filter has_keys snapshot_data)"
  have "List.map_filter summarise snapshot_data = map g (filter has_keys snapshot_data)"
    by (simp add: List.map_filter_def g_def summarise_has_keys)
  then have R: "get_events_summary_from_snapshot_data snapshot_data = map g es"
    by (simp add: get_events_summary_from_snapshot_data_def es_def sort_key_map)
  have "projects EVENT_SUMMARY_DATA_INCLUSIONS False e (g e)" if "e \<in> set es" for e
  proof -
    have "well_formed e" "has_keys e" using that assms by (auto simp: es_def)
    moreover from this obtain s where "summarise e = Some s"
      using summarise_has_keys [of e] by auto
    ultimately show ?thesis by (simp add: g_def summarise_projects)
  qed
  then have "list_all2 (projects EVENT_SUMMARY_DATA_INCLUSIONS False) es (map g es)"
    by (simp add: list_all2_map2 list_all2_same)
  moreover have "mset es = mset (filter has_keys snapshot_data)"
    by (simp add: es_def)
  ultimately show ?thesis
    unfolding R [symmetric] by (auto simp: get_events_summary_from_snapshot_data_def)
qed

theorem get_events_summary_projects_witness:
  "well_formed
     \<lparr>sd_timestamp = Some 7, sd_type = Some 3,
      sd_data = Some [(''source'', JInt 1), (''secret'', JStr ''x''),
        (''payload'', JDict [(''href'', JStr ''http://a''), (''other'', JInt 1)])]\<rparr>
   \<and> get_events_summary_from_snapshot_data
     [\<lparr>sd_timestamp = Some 7, sd_type = Some 3,
       sd_data = Some [(''source'', JInt 1), (''secret'', JStr ''x''),
         (''payload'', JDict [(''href'', JStr ''http://a''), (''other'', JInt 1)])]\<rparr>] =
     [\<lparr>timestamp = 7, event_type = 3,
       data = [(''source'', Scalar (SInt 1)),
               (''payload'', Payload [(''href'', SStr ''http://a'')])]\<rparr>]
   \<and> projects EVENT_SUMMARY_DATA_INCLUSIONS False
     \<lparr>sd_timestamp = Some 7, sd_type = Some 3,
      sd_data = Some [(''source'', JInt 1), (''secret'', JStr ''x''),
        (''payload'', JDict [(''href'', JStr ''http://a''), (''other'', JInt 1)])]\<rparr>
     \<lparr>timestamp = 7, event_type = 3,
       data = [(''source'', Scalar (SInt 1)),
               (''payload'', Payload [(''href'', SStr ''http://a'')])]\<rparr>"
proof -
  let ?e = "\<lparr>sd_timestamp = Some 7, sd_type = Some 3,
      sd_data = Some [(''source'', JInt 1), (''secret'', JStr ''x''),
        (''payload'', JDict [(''href'', JStr ''http://a''), (''other'', JInt 1)])]\<rparr>"
  have wf: "well_formed ?e" by (simp add: well_formed_def)
  have hk: "has_keys ?e" by (simp add: has_keys_def)
  have ev: "get_events_summary_from_snapshot_data [?e] =
     [\<lparr>timestamp = 7, event_type = 3,
       data = [(''source'', Scalar (SInt 1)),
               (''payload'', Payload [(''href'', SStr ''http://a'')])]\<rparr>]"
    by code_simp
  show ?thesis
    using wf hk ev get_events_summary_projects [of "[?e]"]
    by (auto simp: list_all2_Cons2)
qed

text \<open>
  The claim as the specification words it fails twice. A top-level entry under the key
  \<^verbatim>\<open>payload.href\<close> is kept, although the key is none of the seven; and a payload that
  is an empty dict leaves no \<^verbatim>\<open>payload\<close> entry.
\<close>

theorem get_events_summary_counterexample:
  "get_events_summary_from_snapshot_data
     [\<lparr>sd_timestamp = Some 0, sd_type = Some 3,
       sd_data = Some [(''payload.href'', JStr ''x'')]\<rparr>] =
     [\<lparr>timestamp = 0, event_type = 3, data = [(''payload.href'', Scalar (SStr ''x''))]\<rparr>]
   \<and> \<not> projects spec_top_keys True
       \<lparr>sd_timestamp = Some 0, sd_type = Some 3,
        sd_data = Some [(''payload.href'', JStr ''x'')]\<rparr>
       \<lparr>timestamp = 0, event_type = 3, data = [(''payload.href'', Scalar (SStr ''x''))]\<rparr>
   \<and> get_events_summary_from_snapshot_data
     [\<lparr>sd_timestamp = Some 0, sd_type = Some 3,
       sd_data = Some [(''payload'', JDict [])]\<rparr>] =
     [\<lparr>timestamp = 0, event_type = 3, data = []\<rparr>]
   \<and> \<not> projects spec_top_keys True
       \<lparr>sd_timestamp = Some 0, sd_type = Some 3, sd_data = Some [(''payload'', JDict [])]\<rparr>
       \<lparr>timestamp = 0, event_type = 3, data = []\<rparr>"
proof -
  have a: "get_events_summary_from_snapshot_data
     [\<lparr>sd_timestamp = Some 0, sd_type = Some 3,
       sd_data = Some [(''payload.href'', JStr ''x'')]\<rparr>] =
     [\<lparr>timestamp = 0, event_type = 3, data = [(''payload.href'', Scalar (SStr ''x''))]\<rparr>]"
    by code_simp
  have b: "\<not> kept_entry spec_top_keys True [(''payload.href'', JStr ''x'')]
             ''payload.href'' (Scalar (SStr ''x''))"
    by (simp add: kept_entry_def spec_top_keys_def)
  have c: "get_events_summary_from_snapshot_data
     [\<lparr>sd_timestamp = Some 0, sd_type = Some 3,
       sd_data = Some [(''payload'', JDict [])]\<rparr>] =
     [\<lparr>timestamp = 0, event_type = 3, data = []\<rparr>]"
    by code_simp
  have d: "kept_entry spec_top_keys True [(''payload'', JDict [])] ''payload'' (Payload [])"
    by (simp add: kept_entry_def kept_payload_def fun_eq_iff)
  have "\<not> projects spec_top_keys True
       \<lparr>sd_timestamp = Some 0, sd_type = Some 3,
        sd_data = Some [(''payload.href'', JStr ''x'')]\<rparr>
       \<lparr>timestamp = 0, event_type = 3, data = [(''payload.href'', Scalar (SStr ''x''))]\<rparr>"
    using b by (auto simp: projects_def)
  moreover have "\<not> projects spec_top_keys True
       \<lparr>sd_timestamp = Some 0, sd_type = Some 3, sd_data = Some [(''payload'', JDict [])]\<rparr>
       \<lparr>timestamp = 0, event_type = 3, data = []\<rparr>"
    using d by (auto simp: projects_def)
  ultimately show ?thesis using a c by simp
qed

subsection \<open>The active segments belong to their window\<close>

lemma active_loop_all:
  assumes new: "\<And>t. P (new_segment w t)"
    and ext: "\<And>c t. P c \<Longrightarrow> P (c\<lparr>end_time := t\<rparr>)"
  shows "list_all P segs \<Longrightarrow> pred_option P cur \<Longrightarrow>
         list_all P (fst (active_loop w thr segs cur ts))
         \<and> pred_option P (snd (active_loop w thr segs cur ts))"
proof (induction ts arbitrary: segs cur)
  case Nil
  then show ?case by simp
next
  case (Cons t ts)
  show ?case
  proof (cases cur)
    case None
    have "pred_option P (Some (new_segment w (parse_snapshot_timestamp t)))"
      using new by simp
    from Cons.IH [OF Cons.prems(1) this] show ?thesis
      using None by simp
  next
    case (Some c)
    then have c: "P c" using Cons.prems(2) by simp
    show ?thesis
    proof (cases "parse_snapshot_timestamp t - end_time c \<le> timedelta_seconds thr")
      case True
      have "pred_option P (Some (c\<lparr>end_time := parse_snapshot_timestamp t\<rparr>))"
        using ext [OF c] by simp
      from Cons.IH [OF Cons.prems(1) this] show ?thesis
        using Some True by simp
    next
      case False
      have 1: "list_all P (segs @ [c])" using Cons.prems(1) c by simp
      have 2: "pred_option P (Some (new_segment w (parse_snapshot_timestamp t)))"
        using new by simp
      from Cons.IH [OF 1 2] show ?thesis
        using Some False by simp
    qed
  qed
qed

lemma get_active_segments_window:
  "list_all (\<lambda>s. is_active s \<and> window_id s = w)
     (get_active_segments_from_event_list evs w thr)"
proof -
  let ?P = "\<lambda>s. is_active s \<and> window_id s = w"
  let ?r = "active_loop w thr [] None (map timestamp (filter is_active_event evs))"
  have "list_all ?P (fst ?r) \<and> pred_option ?P (snd ?r)"
    by (rule active_loop_all) (simp_all add: new_segment_def)
  then show ?thesis
    by (cases ?r) (auto simp: get_active_segments_from_event_list_def split: option.splits)
qed

subsection \<open>The first loop\<close>

lemma update_new_key:
  "w \<notin> fst ` set b \<Longrightarrow> AList.update w v b = b @ [(w, v)]"
  by (induction b) auto

text \<open>The active segments of all windows, in the order of the dict.\<close>

lemma windows_loop_eq:
  assumes "distinct (map fst m)" and "\<forall>kv \<in> set m. snd kv \<noteq> []"
    and "fst ` set m \<inter> fst ` set b = {}"
  shows "windows_loop m act b =
     Inr (act @ concat (map (\<lambda>kv. get_active_segments_from_event_list (snd kv) (fst kv)
                                   ACTIVITY_THRESHOLD_SECONDS) m),
          b @ window_bounds_of m)"
  using assms
proof (induction m arbitrary: act b)
  case Nil
  then show ?case by (simp add: window_bounds_of_def)
next
  case (Cons kv m)
  obtain w evs where kv: "kv = (w, evs)" by (cases kv)
  have new: "w \<notin> fst ` set b" using Cons.prems(3) kv by auto
  have ne: "evs \<noteq> []" using Cons.prems(2) kv by auto
  let ?seg = "\<lparr>start_time = parse_snapshot_timestamp (timestamp (hd evs)),
               end_time = parse_snapshot_timestamp (timestamp (last evs)),
               window_id = w, is_active = False\<rparr>"
  have d: "distinct (map fst m)" "\<forall>kv \<in> set m. snd kv \<noteq> []"
    using Cons.prems by auto
  have disj: "fst ` set m \<inter> fst ` set (b @ [(w, ?seg)]) = {}"
    using Cons.prems(1,3) kv by auto
  show ?case
    using kv ne Cons.IH [OF d disj]
    by (simp add: update_new_key [OF new] window_bounds_of_def parse_snapshot_timestamp_def)
qed

subsection \<open>The counts\<close>

lemma count_source_eq:
  assumes "\<forall>x \<in> set xs. event_type x = 3 \<longrightarrow> map_of (data x) ''source'' \<noteq> None"
  shows "count_source k xs =
     Inr (length (filter (\<lambda>x. event_type x = 3 \<and>
                              map_of (data x) ''source'' = Some (Scalar (SInt k))) xs))"
  using assms by (induction xs) auto

subsection \<open>The bounds of the windows\<close>

lemma keys_window_bounds_of: "map fst (window_bounds_of m) = map fst m"
  by (simp add: window_bounds_of_def)

lemma global_start_le:
  "kv \<in> set b \<Longrightarrow> global_start b \<le> start_time (snd kv)"
  by (simp add: global_start_def)

lemma global_end_ge:
  "kv \<in> set b \<Longrightarrow> end_time (snd kv) \<le> global_end b"
  by (simp add: global_end_def)

lemma hd_window_ids:
  assumes "b \<noteq> []"
  shows "\<exists>win. (hd (window_ids_by_start_time b), win) \<in> set b \<and> start_time win = global_start b"
proof -
  let ?L = "sort_key (\<lambda>kv. start_time (snd kv)) b"
  have ne: "?L \<noteq> []" using assms by (metis length_sort list.size(3) length_0_conv)
  have s: "sorted (map (\<lambda>kv. start_time (snd kv)) ?L)" by simp
  have mem: "hd ?L \<in> set b" using ne by (metis hd_in_set set_sort)
  have "\<forall>kv \<in> set ?L. start_time (snd (hd ?L)) \<le> start_time (snd kv)"
    using s ne by (cases ?L) auto
  then have le: "\<forall>kv \<in> set b. start_time (snd (hd ?L)) \<le> start_time (snd kv)" by simp
  have "global_start b = start_time (snd (hd ?L))"
    unfolding global_start_def
    by (rule Min_eqI) (use le mem in auto)
  moreover have "hd (window_ids_by_start_time b) = fst (hd ?L)"
    using ne by (simp add: window_ids_by_start_time_def hd_map)
  ultimately show ?thesis using mem by (metis prod.collapse)
qed

subsection \<open>The walk over the priority list, segment by segment\<close>

lemma spec_fill_nonempty: "spec_fill b re t ws \<noteq> [] \<Longrightarrow> t < re"
  by (induction ws arbitrary: t) (auto split: option.splits if_splits)

lemma cursor_Cons:
  "cursor (seg # F) t (Suc j) = cursor F (end_time seg) j"
  by (simp add: cursor_def)

text \<open>What the walk guarantees of the segment at index \<open>i\<close> and the cursor before it.\<close>

lemma spec_fill_nth:
  "i < length (spec_fill b re t ws) \<Longrightarrow>
     t \<le> cursor (spec_fill b re t ws) t i
     \<and> cursor (spec_fill b re t ws) t i \<le> start_time (spec_fill b re t ws ! i)
     \<and> cursor (spec_fill b re t ws) t i < end_time (spec_fill b re t ws ! i)
     \<and> end_time (spec_fill b re t ws ! i) \<le> re
     \<and> \<not> is_active (spec_fill b re t ws ! i)
     \<and> (Suc i < length (spec_fill b re t ws) \<longrightarrow> ordered_bounds b \<longrightarrow>
          start_time (spec_fill b re t ws ! i) \<le> end_time (spec_fill b re t ws ! i))"
proof (induction ws arbitrary: t i)
  case Nil
  then show ?case by simp
next
  case (Cons w ws)
  show ?case
  proof (cases "\<exists>win. map_of b w = Some win \<and> end_time win > t \<and> t < re")
    case False
    then have eq: "spec_fill b re t (w # ws) = spec_fill b re t ws"
      by (cases "map_of b w") auto
    show ?thesis
      using Cons.prems unfolding eq by (rule Cons.IH)
  next
    case True
    then obtain win where Some: "map_of b w = Some win"
      and cond: "end_time win > t" "t < re" by blast
    define seg where "seg = \<lparr>start_time = max (start_time win) t,
      end_time = min (end_time win) re, window_id = w, is_active = False\<rparr>"
    define F where "F = spec_fill b re (end_time seg) ws"
    have eq: "spec_fill b re t (w # ws) = seg # F"
      using Some cond by (simp add: seg_def F_def)
    have tle: "t < end_time seg" using cond by (simp add: seg_def)
    have winwf: "start_time win \<le> end_time win" if "ordered_bounds b"
      using that map_of_SomeD [OF Some] by (force simp: ordered_bounds_def)
    show ?thesis
    proof (cases i)
      case 0
      have inv: "start_time seg \<le> end_time seg" if "F \<noteq> []" "ordered_bounds b"
      proof -
        have "end_time seg < re" using that(1) spec_fill_nonempty F_def by blast
        then show ?thesis using winwf [OF that(2)] cond by (simp add: seg_def)
      qed
      have "t \<le> start_time seg" "end_time seg \<le> re" "\<not> is_active seg"
        by (simp_all add: seg_def)
      then show ?thesis
        unfolding eq 0 using tle inv by (simp add: cursor_def)
    next
      case (Suc j)
      then have j: "j < length F" using Cons.prems eq by simp
      have IH: "end_time seg \<le> cursor F (end_time seg) j
        \<and> cursor F (end_time seg) j \<le> start_time (F ! j)
        \<and> cursor F (end_time seg) j < end_time (F ! j)
        \<and> end_time (F ! j) \<le> re
        \<and> \<not> is_active (F ! j)
        \<and> (Suc j < length F \<longrightarrow> ordered_bounds b \<longrightarrow>
             start_time (F ! j) \<le> end_time (F ! j))"
        unfolding F_def by (rule Cons.IH) (use j in \<open>simp add: F_def\<close>)
      show ?thesis
        unfolding eq Suc cursor_Cons using IH tle by simp
    qed
  qed
qed

lemma length_all_adjust [simp]: "length (all_adjust rs re f l F) = length F"
  by (simp add: all_adjust_def)

lemma nth_all_adjust:
  "i < length F \<Longrightarrow> all_adjust rs re f l F ! i = adjusted rs re f l F i"
  by (simp add: all_adjust_def)

lemma adjusted_start:
  "start_time (adjusted rs re f l F i) =
     start_time (F ! i) + (if start_time (F ! i) = cursor F rs i \<and> (i = 0 \<longrightarrow> \<not> f)
                           then 1 else 0)"
proof (cases "i = 0")
  case True
  then show ?thesis by (simp add: adjusted_def cursor_def Let_def)
next
  case False
  then show ?thesis by (simp add: adjusted_def cursor_def Let_def)
qed

lemma adjusted_end:
  "end_time (adjusted rs re f l F i) =
     end_time (F ! i) - (if Suc i = length F \<and> end_time (F ! i) = re \<and> \<not> l then 1 else 0)"
  by (simp add: adjusted_def Let_def)

lemma adjusted_same:
  "is_active (adjusted rs re f l F i) = is_active (F ! i)"
  "window_id (adjusted rs re f l F i) = window_id (F ! i)"
  by (simp_all add: adjusted_def Let_def)

lemma generate_Inr:
  assumes "last_w \<in> fst ` set b"
  shows "generate_inactive_segments_for_range rs re last_w b f l =
           Inr (all_adjust rs re f l (spec_fill b re rs (last_w # window_ids_by_start_time b)))"
proof -
  have "inactive_loop b re [] rs (last_w # window_ids_by_start_time b) =
          Inr ([] @ spec_fill b re rs (last_w # window_ids_by_start_time b))"
    using assms by (intro inactive_loop_eq) (simp add: window_ids_are_keys)
  then show ?thesis
    by (simp add: generate_inactive_segments_for_range_def adjust_segments_eq)
qed

subsection \<open>The segments of one gap do not collide\<close>

lemma gap_inactive:
  "s \<in> set (all_adjust rs re f l (spec_fill b re rs ws)) \<Longrightarrow> \<not> is_active s"
proof -
  assume "s \<in> set (all_adjust rs re f l (spec_fill b re rs ws))"
  then obtain i where i: "i < length (spec_fill b re rs ws)"
    and s: "s = all_adjust rs re f l (spec_fill b re rs ws) ! i"
    by (metis in_set_conv_nth length_all_adjust)
  show ?thesis
    using spec_fill_nth [OF i] s i by (simp add: nth_all_adjust adjusted_same)
qed

lemma gap_no_collision:
  "successively (\<lambda>a c. \<not> collide a c) (all_adjust rs re f l (spec_fill b re rs ws))"
proof -
  define F where "F = spec_fill b re rs ws"
  have "\<not> collide (all_adjust rs re f l F ! i) (all_adjust rs re f l F ! Suc i)"
    if "Suc i < length F" for i
  proof -
    have c: "cursor F rs (Suc i) \<le> start_time (F ! Suc i)"
      using spec_fill_nth [of "Suc i" b re rs ws] that by (simp add: F_def)
    have e: "end_time (adjusted rs re f l F i) = cursor F rs (Suc i)"
      using that by (simp add: adjusted_end cursor_def)
    have "start_time (adjusted rs re f l F (Suc i)) \<noteq> cursor F rs (Suc i)"
      using c by (simp add: adjusted_start)
    then show ?thesis
      using that e by (simp add: collide_def nth_all_adjust)
  qed
  then show ?thesis
    unfolding F_def [symmetric] by (simp add: successively_conv_nth)
qed

lemma gap_first:
  assumes "all_adjust rs re f l (spec_fill b re rs ws) \<noteq> []"
  shows "rs \<le> start_time (hd (all_adjust rs re f l (spec_fill b re rs ws)))"
    and "\<not> f \<Longrightarrow> rs < start_time (hd (all_adjust rs re f l (spec_fill b re rs ws)))"
proof -
  define F where "F = spec_fill b re rs ws"
  have len: "0 < length F" using assms by (simp add: F_def all_adjust_def)
  have hd: "hd (all_adjust rs re f l F) = adjusted rs re f l F 0"
    using len by (simp add: hd_conv_nth nth_all_adjust all_adjust_def)
  have c: "rs \<le> start_time (F ! 0)"
    using spec_fill_nth [of 0 b re rs ws] len by (simp add: F_def cursor_def)
  show "rs \<le> start_time (hd (all_adjust rs re f l (spec_fill b re rs ws)))"
    unfolding F_def [symmetric] hd using c by (simp add: adjusted_start)
  show "rs < start_time (hd (all_adjust rs re f l (spec_fill b re rs ws)))" if "\<not> f"
    unfolding F_def [symmetric] hd using c that by (simp add: adjusted_start cursor_def)
qed

lemma gap_last:
  assumes "all_adjust rs re f l (spec_fill b re rs ws) \<noteq> []"
  shows "end_time (last (all_adjust rs re f l (spec_fill b re rs ws))) \<le> re"
    and "\<not> l \<Longrightarrow> end_time (last (all_adjust rs re f l (spec_fill b re rs ws))) < re"
proof -
  define F where "F = spec_fill b re rs ws"
  define n where "n = length F - 1"
  have len: "0 < length F" using assms by (simp add: F_def all_adjust_def)
  then have n: "n < length F" "Suc n = length F" by (simp_all add: n_def)
  have la: "last (all_adjust rs re f l F) = adjusted rs re f l F n"
    using n assms by (simp add: last_conv_nth nth_all_adjust n_def F_def)
  have c: "end_time (F ! n) \<le> re"
    using spec_fill_nth [of n b re rs ws] n by (simp add: F_def)
  show "end_time (last (all_adjust rs re f l (spec_fill b re rs ws))) \<le> re"
    unfolding F_def [symmetric] la using c by (simp add: adjusted_end)
  show "end_time (last (all_adjust rs re f l (spec_fill b re rs ws))) < re" if "\<not> l"
    unfolding F_def [symmetric] la using c that n by (simp add: adjusted_end)
qed

subsection \<open>Collisions in the segment list\<close>

declare spec_fill.simps [simp del]

lemma no_collide_free: "\<not> collide a c \<Longrightarrow> collision_free gs a c"
  by (simp add: collision_free_def)

lemma gap_collision_free:
  "successively (collision_free gs) (all_adjust rs re f l (spec_fill b re rs ws))"
  by (rule successively_mono [OF gap_no_collision]) (rule no_collide_free)

text \<open>
  What holds of \<^verbatim>\<open>all_segments\<close> and \<^verbatim>\<open>current_timestamp\<close> between two rounds of the
  loop: no forbidden collision so far, and the last segment is active and ends no later
  than the current timestamp.
\<close>

lemma segments_loop_collision:
  assumes "\<forall>seg \<in> set act. is_active seg \<and> window_id seg \<in> fst ` set b"
    and "cw \<in> fst ` set b"
    and "successively (collision_free gs) segs"
    and "segs \<noteq> [] \<longrightarrow> is_active (last segs) \<and> end_time (last segs) \<le> cur"
    and "idx = 0 \<longrightarrow> segs = []"
  shows "\<exists>segs' cur' cw'.
     segments_loop b idx segs cur cw act = Inr (segs', cur', cw')
     \<and> cw' \<in> fst ` set b
     \<and> successively (collision_free gs) segs'
     \<and> (segs' \<noteq> [] \<longrightarrow> is_active (last segs') \<and> end_time (last segs') \<le> cur')"
  using assms
proof (induction act arbitrary: idx segs cur cw)
  case Nil
  then show ?case by simp
next
  case (Cons seg act)
  define gap where "gap =
    (if start_time seg > cur
     then all_adjust cur (start_time seg) (idx = 0) False
            (spec_fill b (start_time seg) cur (cw # window_ids_by_start_time b))
     else [])"
  have g: "(if start_time seg > cur
           then generate_inactive_segments_for_range cur (start_time seg) cw b (idx = 0) False
           else Inr []) = Inr gap"
    using Cons.prems(2) by (simp add: gap_def generate_Inr)
  have step: "segments_loop b idx segs cur cw (seg # act) =
      segments_loop b (Suc idx) (segs @ gap @ [seg]) (max (end_time seg) cur) (window_id seg) act"
    using g by simp
  have act: "is_active seg" "window_id seg \<in> fst ` set b"
    using Cons.prems(1) by simp_all
  have gapfree: "successively (collision_free gs) gap"
    by (simp add: gap_def gap_collision_free)
  have gap_seg: "collision_free gs (last gap) seg" if "gap \<noteq> []"
  proof -
    have "end_time (last gap) < start_time seg"
      using that gap_last(2) [of cur "start_time seg" "idx = 0" False b]
      by (simp add: gap_def split: if_splits)
    then show ?thesis by (simp add: collision_free_def collide_def)
  qed
  have segs_gap: "collision_free gs (last segs) (hd gap)" if "segs \<noteq> []" "gap \<noteq> []"
  proof -
    have "idx \<noteq> 0" using that(1) Cons.prems(5) by blast
    then have "cur < start_time (hd gap)"
      using that(2) gap_first(2) [of cur "start_time seg" "idx = 0" False b]
      by (simp add: gap_def split: if_splits)
    moreover have "end_time (last segs) \<le> cur" using that(1) Cons.prems(4) by blast
    ultimately show ?thesis by (simp add: collision_free_def collide_def)
  qed
  have segs_seg: "collision_free gs (last segs) seg" if "segs \<noteq> []"
    using that Cons.prems(4) act(1) by (simp add: collision_free_def)
  have inner: "successively (collision_free gs) (gap @ [seg])"
    using gapfree gap_seg by (auto simp: successively_append_iff)
  have free: "successively (collision_free gs) (segs @ gap @ [seg])"
  proof (cases "gap = []")
    case True
    then show ?thesis
      using Cons.prems(3) segs_seg by (auto simp: successively_append_iff)
  next
    case False
    then show ?thesis
      using Cons.prems(3) inner segs_gap by (auto simp: successively_append_iff)
  qed
  have "\<exists>segs' cur' cw'.
     segments_loop b (Suc idx) (segs @ gap @ [seg]) (max (end_time seg) cur) (window_id seg) act
       = Inr (segs', cur', cw')
     \<and> cw' \<in> fst ` set b
     \<and> successively (collision_free gs) segs'
     \<and> (segs' \<noteq> [] \<longrightarrow> is_active (last segs') \<and> end_time (last segs') \<le> cur')"
  proof (rule Cons.IH)
    show "\<forall>seg \<in> set act. is_active seg \<and> window_id seg \<in> fst ` set b"
      using Cons.prems(1) by simp
    show "window_id seg \<in> fst ` set b" by (rule act(2))
    show "successively (collision_free gs) (segs @ gap @ [seg])" by (rule free)
    show "segs @ gap @ [seg] \<noteq> [] \<longrightarrow>
      is_active (last (segs @ gap @ [seg])) \<and>
      end_time (last (segs @ gap @ [seg])) \<le> max (end_time seg) cur"
      using act(1) by simp
    show "Suc idx = 0 \<longrightarrow> segs @ gap @ [seg] = []" by simp
  qed
  then show ?case
    unfolding step by blast
qed

subsection \<open>The metadata, piece by piece\<close>

lemma all_active_window:
  assumes "seg \<in> set (sort_key start_time (concat (map (\<lambda>kv.
     get_active_segments_from_event_list (snd kv) (fst kv) ACTIVITY_THRESHOLD_SECONDS) m)))"
  shows "is_active seg \<and> window_id seg \<in> fst ` set m"
proof -
  from assms obtain kv where kv: "kv \<in> set m"
    and s: "seg \<in> set (get_active_segments_from_event_list (snd kv) (fst kv)
                          ACTIVITY_THRESHOLD_SECONDS)"
    by auto
  have "is_active seg \<and> window_id seg = fst kv"
    using get_active_segments_window [of "fst kv" "snd kv" ACTIVITY_THRESHOLD_SECONDS] s
    by (simp add: list_all_iff)
  then show ?thesis using kv by auto
qed

lemma keys_bounds_of: "fst ` set (window_bounds_of m) = fst ` set m"
  by (metis keys_window_bounds_of list.set_map)

lemma bounds_of_nonempty: "m \<noteq> [] \<Longrightarrow> window_bounds_of m \<noteq> []"
  by (simp add: window_bounds_of_def)

text \<open>
  The result of \<^verbatim>\<open>get_metadata_from_events_summary\<close> when no exception is raised, from
  the result of its loop over the active segments.
\<close>

lemma get_metadata_eq:
  assumes ne: "m \<noteq> []" and dist: "distinct (map fst m)"
    and evs: "\<forall>kv \<in> set m. snd kv \<noteq> []"
    and src: "\<forall>kv \<in> set m. \<forall>x \<in> set (snd kv).
                event_type x = 3 \<longrightarrow> map_of (data x) ''source'' \<noteq> None"
    and loop: "segments_loop (window_bounds_of m) 0 [] (global_start (window_bounds_of m))
        (hd (window_ids_by_start_time (window_bounds_of m)))
        (sort_key start_time (concat (map (\<lambda>kv.
           get_active_segments_from_event_list (snd kv) (fst kv) ACTIVITY_THRESHOLD_SECONDS) m)))
       = Inr (segs, cur, cw)"
    and cw: "cw \<in> fst ` set (window_bounds_of m)"
  shows "get_metadata_from_events_summary m =
    Inr \<lparr>distinct_id = [],
         segments = segs @
           (if cur < global_end (window_bounds_of m)
            then all_adjust cur (global_end (window_bounds_of m))
                   (cur = global_start (window_bounds_of m)) True
                   (spec_fill (window_bounds_of m) (global_end (window_bounds_of m)) cur
                      (cw # window_ids_by_start_time (window_bounds_of m)))
            else []),
         start_and_end_times_by_window_id = window_bounds_of m,
         md_start_time = global_start (window_bounds_of m),
         md_end_time = global_end (window_bounds_of m),
         duration = seconds_attr (global_end (window_bounds_of m)
                                  - global_start (window_bounds_of m)),
         click_count = length (filter (\<lambda>x. event_type x = 3 \<and>
              map_of (data x) ''source'' = Some (Scalar (SInt 2))) (concat (map snd m))),
         keypress_count = length (filter (\<lambda>x. event_type x = 3 \<and>
              map_of (data x) ''source'' = Some (Scalar (SInt 5))) (concat (map snd m))),
         urls = href_urls (concat (map snd m))\<rparr>"
proof -
  define b where "b = window_bounds_of m"
  have w: "windows_loop m [] [] =
     Inr (concat (map (\<lambda>kv. get_active_segments_from_event_list (snd kv) (fst kv)
                                   ACTIVITY_THRESHOLD_SECONDS) m), b)"
    using windows_loop_eq [OF dist evs, of "[]" "[]"] by (simp add: b_def)
  have bne: "b \<noteq> []" using ne by (simp add: b_def bounds_of_nonempty)
  have srcs: "\<forall>x \<in> set (flatten (map snd m)).
                event_type x = 3 \<longrightarrow> map_of (data x) ''source'' \<noteq> None"
    using src by (auto simp: flatten_def)
  have c: "count_source k (flatten (map snd m)) =
     Inr (length (filter (\<lambda>x. event_type x = 3 \<and>
              map_of (data x) ''source'' = Some (Scalar (SInt k))) (concat (map snd m))))" for k
    using count_source_eq [OF srcs, of k] by (simp add: flatten_def)
  have g: "generate_inactive_segments_for_range cur (global_end b) cw b f l =
     Inr (all_adjust cur (global_end b) f l
            (spec_fill b (global_end b) cur (cw # window_ids_by_start_time b)))" for f l
    using cw by (simp add: generate_Inr b_def)
  have gs: "Min ((\<lambda>kv. start_time (snd kv)) ` set b) = global_start b"
    by (simp add: global_start_def)
  have ge: "Max ((\<lambda>kv. end_time (snd kv)) ` set b) = global_end b"
    by (simp add: global_end_def)
  show ?thesis
    unfolding get_metadata_from_events_summary_def b_def [symmetric] w
    using bne loop [unfolded b_def [symmetric]] c g
    by (simp add: Let_def gs ge flatten_def)
qed

text \<open>
  C2. With every timestamp in the range that parses exactly, the call returns, and when two
  neighbours of the returned segment list share a boundary instant (the first ends exactly
  where the second starts), either both are active segments or the instant is the global
  start. An inactive segment never shares its start with the end of the segment before it,
  nor its end with the start of the segment after it, anywhere else.
\<close>

theorem segments_collision_free:
  assumes ne: "m \<noteq> []" and dist: "distinct (map fst m)"
    and evs: "\<forall>kv \<in> set m. snd kv \<noteq> []"
    and src: "\<forall>kv \<in> set m. \<forall>x \<in> set (snd kv).
                event_type x = 3 \<longrightarrow> map_of (data x) ''source'' \<noteq> None"
    and exact: "exact_timestamps m"
  shows "\<exists>md. get_metadata_from_events_summary m = Inr md
      \<and> md_start_time md = global_start (window_bounds_of m)
      \<and> successively (collision_free (md_start_time md)) (segments md)"
proof -
  define b where "b = window_bounds_of m"
  define gs where "gs = global_start b"
  define ge where "ge = global_end b"
  define act where "act = sort_key start_time (concat (map (\<lambda>kv.
     get_active_segments_from_event_list (snd kv) (fst kv) ACTIVITY_THRESHOLD_SECONDS) m))"
  have bne: "b \<noteq> []" using ne by (simp add: b_def bounds_of_nonempty)
  have keys: "fst ` set b = fst ` set m" by (simp add: b_def keys_bounds_of)
  have cw0: "hd (window_ids_by_start_time b) \<in> fst ` set b"
    using hd_window_ids [OF bne] by force
  have acts: "\<forall>seg \<in> set act. is_active seg \<and> window_id seg \<in> fst ` set b"
    unfolding act_def keys using all_active_window by blast
  obtain segs cur cw where loop:
      "segments_loop b 0 [] gs (hd (window_ids_by_start_time b)) act = Inr (segs, cur, cw)"
    and cw: "cw \<in> fst ` set b"
    and free: "successively (collision_free gs) segs"
    and lst: "segs \<noteq> [] \<longrightarrow> is_active (last segs) \<and> end_time (last segs) \<le> cur"
    using segments_loop_collision [OF acts cw0, of gs "[]" gs 0] by auto
  define gap where "gap =
    (if cur < ge then all_adjust cur ge (cur = gs) True
                        (spec_fill b ge cur (cw # window_ids_by_start_time b))
     else [])"
  have gapfree: "successively (collision_free gs) gap"
    by (simp add: gap_def gap_collision_free)
  have join: "collision_free gs (last segs) (hd gap)" if "segs \<noteq> []" "gap \<noteq> []"
  proof -
    have le: "end_time (last segs) \<le> cur" using that(1) lst by blast
    have ge1: "cur \<le> start_time (hd gap)"
      using that(2) gap_first(1) [of cur ge "cur = gs" True b]
      by (simp add: gap_def split: if_splits)
    have gt: "cur < start_time (hd gap)" if "cur \<noteq> gs"
      using that \<open>gap \<noteq> []\<close> gap_first(2) [of cur ge "cur = gs" True b]
      by (simp add: gap_def split: if_splits)
    show ?thesis
      using le ge1 gt by (cases "cur = gs") (auto simp: collision_free_def collide_def)
  qed
  have all: "successively (collision_free gs) (segs @ gap)"
    using free gapfree join by (auto simp: successively_append_iff)
  have "get_metadata_from_events_summary m =
    Inr \<lparr>distinct_id = [], segments = segs @ gap,
         start_and_end_times_by_window_id = b, md_start_time = gs, md_end_time = ge,
         duration = seconds_attr (ge - gs),
         click_count = length (filter (\<lambda>x. event_type x = 3 \<and>
              map_of (data x) ''source'' = Some (Scalar (SInt 2))) (concat (map snd m))),
         keypress_count = length (filter (\<lambda>x. event_type x = 3 \<and>
              map_of (data x) ''source'' = Some (Scalar (SInt 5))) (concat (map snd m))),
         urls = href_urls (concat (map snd m))\<rparr>"
    unfolding gap_def gs_def ge_def b_def
    by (rule get_metadata_eq [OF ne dist evs src])
       (use loop cw in \<open>simp_all add: b_def gs_def act_def\<close>)
  then show ?thesis
    using all by (simp add: gs_def b_def)
qed

theorem segments_collision_free_witness:
  "get_metadata_from_events_summary
     [(''A'', [\<lparr>timestamp = 0, event_type = 3, data = [(''source'', Scalar (SInt 1))]\<rparr>,
               \<lparr>timestamp = 5000, event_type = 3, data = [(''source'', Scalar (SInt 1))]\<rparr>,
               \<lparr>timestamp = 30000, event_type = 3, data = [(''source'', Scalar (SInt 1))]\<rparr>])]
   = Inr \<lparr>distinct_id = [],
      segments =
        [\<lparr>start_time = 0, end_time = 5000, window_id = ''A'', is_active = True\<rparr>,
         \<lparr>start_time = 5001, end_time = 29999, window_id = ''A'', is_active = False\<rparr>,
         \<lparr>start_time = 30000, end_time = 30000, window_id = ''A'', is_active = True\<rparr>],
      start_and_end_times_by_window_id =
        [(''A'', \<lparr>start_time = 0, end_time = 30000, window_id = ''A'', is_active = False\<rparr>)],
      md_start_time = 0, md_end_time = 30000, duration = 30,
      click_count = 0, keypress_count = 0, urls = []\<rparr>
   \<and> successively (collision_free 0)
        [\<lparr>start_time = 0, end_time = 5000, window_id = ''A'', is_active = True\<rparr>,
         \<lparr>start_time = 5001, end_time = 29999, window_id = ''A'', is_active = False\<rparr>,
         \<lparr>start_time = 30000, end_time = 30000, window_id = ''A'', is_active = True\<rparr>]"
proof -
  let ?m = "[(''A'', [\<lparr>timestamp = 0, event_type = 3, data = [(''source'', Scalar (SInt 1))]\<rparr>,
               \<lparr>timestamp = 5000, event_type = 3, data = [(''source'', Scalar (SInt 1))]\<rparr>,
               \<lparr>timestamp = 30000, event_type = 3, data = [(''source'', Scalar (SInt 1))]\<rparr>])]"
  have ev: "get_metadata_from_events_summary ?m
   = Inr \<lparr>distinct_id = [],
      segments =
        [\<lparr>start_time = 0, end_time = 5000, window_id = ''A'', is_active = True\<rparr>,
         \<lparr>start_time = 5001, end_time = 29999, window_id = ''A'', is_active = False\<rparr>,
         \<lparr>start_time = 30000, end_time = 30000, window_id = ''A'', is_active = True\<rparr>],
      start_and_end_times_by_window_id =
        [(''A'', \<lparr>start_time = 0, end_time = 30000, window_id = ''A'', is_active = False\<rparr>)],
      md_start_time = 0, md_end_time = 30000, duration = 30,
      click_count = 0, keypress_count = 0, urls = []\<rparr>"
    by code_simp
  have ex: "exact_timestamps ?m"
    by (simp add: exact_timestamps_def exact_timestamp_def)
  show ?thesis
    using segments_collision_free [of ?m] ev ex by auto
qed

text \<open>
  The claim as the specification words it fails on two windows whose active segments abut:
  A is active from 0 to 5000 and B from 5000 to 8000. The two segments share the instant
  5000, which is neither the global start 0 nor the global end 8000.
\<close>

theorem segments_collision_counterexample:
  "(case get_metadata_from_events_summary
     [(''A'', [\<lparr>timestamp = 0, event_type = 3, data = [(''source'', Scalar (SInt 1))]\<rparr>,
               \<lparr>timestamp = 5000, event_type = 3, data = [(''source'', Scalar (SInt 1))]\<rparr>]),
      (''B'', [\<lparr>timestamp = 5000, event_type = 3, data = [(''source'', Scalar (SInt 1))]\<rparr>,
               \<lparr>timestamp = 8000, event_type = 3, data = [(''source'', Scalar (SInt 1))]\<rparr>])] of
      Inl e \<Rightarrow> False
    | Inr md \<Rightarrow>
        segments md =
          [\<lparr>start_time = 0, end_time = 5000, window_id = ''A'', is_active = True\<rparr>,
           \<lparr>start_time = 5000, end_time = 8000, window_id = ''B'', is_active = True\<rparr>]
        \<and> md_start_time md = 0 \<and> md_end_time md = 8000
        \<and> end_time (segments md ! 0) = start_time (segments md ! 1)
        \<and> end_time (segments md ! 0) \<noteq> md_start_time md
        \<and> end_time (segments md ! 0) \<noteq> md_end_time md)"
  by code_simp

subsection \<open>The segments cover the windows\<close>

lemma covered_append: "covered (xs @ ys) x \<longleftrightarrow> covered xs x \<or> covered ys x"
  by (auto simp: covered_def)

lemma covered_Cons:
  "covered (s # xs) x \<longleftrightarrow> (start_time s \<le> x \<and> x \<le> end_time s) \<or> covered xs x"
  by (auto simp: covered_def)

text \<open>
  The walk over windows in ascending order of start time covers every instant between the
  cursor and the range's end at which one of them has begun and not yet ended.
\<close>

lemma fill_covers_sorted:
  assumes dist: "distinct (map fst b)"
  shows "set L \<subseteq> set b \<Longrightarrow> sorted (map (\<lambda>kv. start_time (snd kv)) L) \<Longrightarrow>
     kv \<in> set L \<Longrightarrow> start_time (snd kv) \<le> x \<Longrightarrow> x < end_time (snd kv) \<Longrightarrow>
     t \<le> x \<Longrightarrow> x < re \<Longrightarrow> covered (spec_fill b re t (map fst L)) x"
proof (induction L arbitrary: t)
  case Nil
  then show ?case by simp
next
  case (Cons u L)
  have look: "map_of b (fst u) = Some (snd u)"
    using dist Cons.prems(1) by simp
  have sub: "set L \<subseteq> set b" and srt: "sorted (map (\<lambda>kv. start_time (snd kv)) L)"
    using Cons.prems(1,2) by simp_all
  have later: "start_time (snd u) \<le> start_time (snd kv)"
    using Cons.prems(2,3) by auto
  show ?case
  proof (cases "end_time (snd u) > t \<and> t < re")
    case True
    define t' where "t' = min (end_time (snd u)) re"
    have eq: "spec_fill b re t (map fst (u # L)) =
        \<lparr>start_time = max (start_time (snd u)) t, end_time = t',
         window_id = fst u, is_active = False\<rparr> # spec_fill b re t' (map fst L)"
      using look True by (simp add: spec_fill.simps t'_def)
    show ?thesis
    proof (cases "x < t'")
      case True
      have "start_time (snd u) \<le> x" using later Cons.prems(4) by simp
      then show ?thesis
        unfolding eq using True Cons.prems(6) by (simp add: covered_Cons)
    next
      case False
      then have tx: "t' \<le> x" by simp
      have "kv \<noteq> u" using tx Cons.prems(5,7) by (auto simp: t'_def)
      then have "kv \<in> set L" using Cons.prems(3) by simp
      from Cons.IH [OF sub srt this Cons.prems(4,5) tx Cons.prems(7)]
      show ?thesis unfolding eq by (simp add: covered_Cons)
    qed
  next
    case False
    then have eq: "spec_fill b re t (map fst (u # L)) = spec_fill b re t (map fst L)"
      using look by (auto simp: spec_fill.simps)
    have "end_time (snd u) \<le> t" using False Cons.prems(6,7) by simp
    then have "kv \<noteq> u" using Cons.prems(5,6) by auto
    then have "kv \<in> set L" using Cons.prems(3) by simp
    from Cons.IH [OF sub srt this Cons.prems(4,5,6,7)]
    show ?thesis unfolding eq .
  qed
qed

lemma fill_covers:
  assumes dist: "distinct (map fst b)"
    and cw: "(cw, win) \<in> set b" "start_time win \<le> rs"
    and x: "alive b x" "rs \<le> x" "x < re"
  shows "covered (spec_fill b re rs (cw # window_ids_by_start_time b)) x"
proof -
  define L where "L = sort_key (\<lambda>kv. start_time (snd kv)) b"
  have ids: "window_ids_by_start_time b = map fst L"
    by (simp add: window_ids_by_start_time_def L_def)
  have L: "set L \<subseteq> set b" "sorted (map (\<lambda>kv. start_time (snd kv)) L)"
    by (simp_all add: L_def)
  obtain kv where kv: "kv \<in> set L" "start_time (snd kv) \<le> x" "x < end_time (snd kv)"
    using x(1) by (auto simp: alive_def L_def)
  have look: "map_of b cw = Some win"
    using dist cw(1) by simp
  show ?thesis
  proof (cases "end_time win > rs")
    case True
    define t' where "t' = min (end_time win) re"
    have eq: "spec_fill b re rs (cw # map fst L) =
        \<lparr>start_time = max (start_time win) rs, end_time = t',
         window_id = cw, is_active = False\<rparr> # spec_fill b re t' (map fst L)"
      using look True x(2,3) by (simp add: spec_fill.simps t'_def)
    show ?thesis
    proof (cases "x < t'")
      case True
      then show ?thesis
        unfolding ids eq using cw(2) x(2) by (simp add: covered_Cons)
    next
      case False
      then have "t' \<le> x" by simp
      from fill_covers_sorted [OF dist L kv this x(3)]
      show ?thesis unfolding ids eq by (simp add: covered_Cons)
    qed
  next
    case False
    then have eq: "spec_fill b re rs (cw # map fst L) = spec_fill b re rs (map fst L)"
      using look by (simp add: spec_fill.simps)
    from fill_covers_sorted [OF dist L kv x(2,3)]
    show ?thesis unfolding ids eq .
  qed
qed

text \<open>
  The adjustments uncover no instant before the range's end but the range's start, and
  that only away from the global start.
\<close>

lemma adjust_covers:
  assumes ord: "ordered_bounds b"
    and cov: "covered (spec_fill b re rs ws) x"
    and x: "x < re" "x = rs \<longrightarrow> f"
  shows "covered (all_adjust rs re f l (spec_fill b re rs ws)) x"
proof -
  define F where "F = spec_fill b re rs ws"
  define G where "G = all_adjust rs re f l F"
  obtain i where i: "i < length F" "start_time (F ! i) \<le> x" "x \<le> end_time (F ! i)"
    using cov by (auto simp: covered_def F_def in_set_conv_nth)
  have mem: "G ! j \<in> set G" if "j < length F" for j
    using that by (simp add: G_def)
  have upper: "x \<le> end_time (G ! i)"
    using i x(1) by (simp add: G_def nth_all_adjust adjusted_end)
  show ?thesis
  proof (cases "start_time (G ! i) \<le> x")
    case True
    then show ?thesis
      unfolding F_def [symmetric] G_def [symmetric] covered_def
      using upper mem [OF i(1)] by blast
  next
    case False
    then have bump: "start_time (F ! i) = cursor F rs i" "i = 0 \<longrightarrow> \<not> f"
      and xs: "x = start_time (F ! i)"
      using i by (auto simp: G_def nth_all_adjust adjusted_start split: if_splits)
    have "i \<noteq> 0"
      using bump xs x(2) by (auto simp: cursor_def)
    then obtain j where j: "i = Suc j" by (cases i) auto
    have jl: "j < length F" "Suc j < length F" using i(1) j by simp_all
    have xe: "x = end_time (F ! j)" using xs bump(1) j by (simp add: cursor_def)
    have fj: "cursor F rs j \<le> start_time (F ! j)" "cursor F rs j < end_time (F ! j)"
        "start_time (F ! j) \<le> end_time (F ! j)"
      using spec_fill_nth [of j b re rs ws] jl ord by (simp_all add: F_def)
    have "end_time (G ! j) = x"
      using jl xe by (simp add: G_def nth_all_adjust adjusted_end)
    moreover have "start_time (G ! j) \<le> x"
      using jl fj xe by (simp add: G_def nth_all_adjust adjusted_start)
    ultimately show ?thesis
      unfolding F_def [symmetric] G_def [symmetric] covered_def
      using mem [OF jl(1)] by force
  qed
qed

text \<open>The segments of one gap stay within the range.\<close>

lemma gap_within:
  assumes "s \<in> set (all_adjust rs re f l (spec_fill b re rs ws))"
  shows "rs \<le> start_time s \<and> end_time s \<le> re"
proof -
  define F where "F = spec_fill b re rs ws"
  obtain i where i: "i < length F" and s: "s = all_adjust rs re f l F ! i"
    using assms by (metis F_def in_set_conv_nth length_all_adjust)
  have "rs \<le> cursor F rs i" "cursor F rs i \<le> start_time (F ! i)" "end_time (F ! i) \<le> re"
    using spec_fill_nth [of i b re rs ws] i by (simp_all add: F_def)
  then show ?thesis
    using i s by (simp add: nth_all_adjust adjusted_start adjusted_end)
qed

subsection \<open>Active segments lie within their window\<close>

lemma walk_open_range:
  "s \<in> set (walk_open w thr c ts) \<Longrightarrow>
     start_time s \<in> insert (start_time c) (set ts) \<and>
     end_time s \<in> insert (end_time c) (set ts)"
proof (induction ts arbitrary: c)
  case Nil
  then show ?case by simp
next
  case (Cons t ts)
  show ?case
  proof (cases "t - end_time c \<le> thr * 1000")
    case True
    then have "s \<in> set (walk_open w thr (c\<lparr>end_time := t\<rparr>) ts)"
      using Cons.prems by simp
    from Cons.IH [OF this] show ?thesis by auto
  next
    case False
    then have "s = c \<or> s \<in> set (walk_open w thr (new_segment w t) ts)"
      using Cons.prems by simp
    then show ?thesis
    proof
      assume "s = c"
      then show ?thesis by simp
    next
      assume "s \<in> set (walk_open w thr (new_segment w t) ts)"
      from Cons.IH [OF this] show ?thesis by (auto simp: new_segment_def)
    qed
  qed
qed

lemma sorted_between:
  "sorted xs \<Longrightarrow> x \<in> set xs \<Longrightarrow> hd xs \<le> x \<and> x \<le> last xs"
proof (induction xs)
  case Nil
  then show ?case by simp
next
  case (Cons a xs)
  then show ?case by (cases "xs = []") auto
qed

lemma active_within_window:
  assumes srt: "sorted (map timestamp evs)"
    and s: "s \<in> set (get_active_segments_from_event_list evs w ACTIVITY_THRESHOLD_SECONDS)"
  shows "timestamp (hd evs) \<le> start_time s \<and> start_time s \<le> end_time s \<and>
         end_time s \<le> timestamp (last evs)"
proof -
  define ts where "ts = map timestamp (filter is_active_event evs)"
  have thr: "0 \<le> ACTIVITY_THRESHOLD_SECONDS" by (simp add: ACTIVITY_THRESHOLD_SECONDS_def)
  have eq: "get_active_segments_from_event_list evs w ACTIVITY_THRESHOLD_SECONDS =
      spec_active_segments w ACTIVITY_THRESHOLD_SECONDS ts"
    unfolding ts_def using srt thr by (rule get_active_eq_spec)
  have mem: "s \<in> set (spec_active_segments w ACTIVITY_THRESHOLD_SECONDS ts)"
    using s eq by simp
  have ord: "start_time s \<le> end_time s"
    using spec_active_segments_props [OF sorted_active_timestamps [OF srt], of w
        ACTIVITY_THRESHOLD_SECONDS] mem
    by (simp add: ts_def)
  have "start_time s \<in> set ts \<and> end_time s \<in> set ts"
  proof (cases ts)
    case Nil
    then show ?thesis using mem by (simp add: spec_active_segments_def)
  next
    case (Cons t ts')
    then have "s \<in> set (walk_open w ACTIVITY_THRESHOLD_SECONDS (new_segment w t) ts')"
      using mem by (simp add: spec_active_segments_def)
    from walk_open_range [OF this] show ?thesis
      using Cons by (simp add: new_segment_def)
  qed
  then have in_evs: "start_time s \<in> set (map timestamp evs)" "end_time s \<in> set (map timestamp evs)"
    by (auto simp: ts_def)
  then have ne: "evs \<noteq> []" by auto
  have "hd (map timestamp evs) \<le> start_time s" "end_time s \<le> last (map timestamp evs)"
    using sorted_between [OF srt] in_evs by blast+
  then show ?thesis
    using ord ne by (simp add: hd_map last_map)
qed

lemma ordered_bounds_of:
  assumes "\<forall>kv \<in> set m. snd kv \<noteq> [] \<and> sorted (map timestamp (snd kv))"
  shows "ordered_bounds (window_bounds_of m)"
proof -
  have "timestamp (hd evs) \<le> timestamp (last evs)"
    if "evs \<noteq> []" "sorted (map timestamp evs)" for evs :: "event_summary list"
    using sorted_between [OF that(2), of "timestamp (hd evs)"] that(1)
    by (simp add: hd_map last_map)
  then show ?thesis
    using assms by (auto simp: ordered_bounds_def window_bounds_of_def)
qed

subsection \<open>The loop over the active segments covers the windows\<close>

text \<open>
  What holds between two rounds: the current window has begun, the current timestamp lies
  within the recording, every instant before it at which a window is alive is covered, the
  current timestamp itself is covered once a segment has been appended, and every segment
  lies within the recording.
\<close>

lemma segments_loop_covers:
  assumes dist: "distinct (map fst b)" and ord: "ordered_bounds b"
    and lo: "\<forall>kv \<in> set b. gs \<le> start_time (snd kv)"
    and hi: "\<forall>kv \<in> set b. end_time (snd kv) \<le> ge"
  shows "\<forall>seg \<in> set act. start_time seg \<le> end_time seg \<and>
           (\<exists>win. (window_id seg, win) \<in> set b \<and> start_time win \<le> start_time seg
                 \<and> end_time seg \<le> end_time win) \<Longrightarrow>
     \<exists>win. (cw, win) \<in> set b \<and> start_time win \<le> cur \<Longrightarrow>
     gs \<le> cur \<Longrightarrow> cur \<le> ge \<Longrightarrow>
     \<forall>x. alive b x \<and> x < cur \<longrightarrow> covered segs x \<Longrightarrow>
     (idx = 0 \<and> cur = gs) \<or> covered segs cur \<Longrightarrow>
     \<forall>s \<in> set segs. gs \<le> start_time s \<and> end_time s \<le> ge \<Longrightarrow>
     \<exists>segs' cur' cw'.
       segments_loop b idx segs cur cw act = Inr (segs', cur', cw')
       \<and> (\<exists>win. (cw', win) \<in> set b \<and> start_time win \<le> cur')
       \<and> gs \<le> cur' \<and> cur' \<le> ge
       \<and> (\<forall>x. alive b x \<and> x < cur' \<longrightarrow> covered segs' x)
       \<and> (cur' = gs \<or> covered segs' cur')
       \<and> (\<forall>s \<in> set segs'. gs \<le> start_time s \<and> end_time s \<le> ge)"
proof (induction act arbitrary: idx segs cur cw)
  case Nil
  then show ?case by auto
next
  case (Cons seg act)
  obtain win where win: "(window_id seg, win) \<in> set b" "start_time win \<le> start_time seg"
      "end_time seg \<le> end_time win" and so: "start_time seg \<le> end_time seg"
    using Cons.prems(1) by auto
  obtain cwin where cwin: "(cw, cwin) \<in> set b" "start_time cwin \<le> cur"
    using Cons.prems(2) by blast
  have cwkey: "cw \<in> fst ` set b" using cwin(1) by force
  have wlo: "gs \<le> start_time win" and whi: "end_time win \<le> ge"
    using lo hi win(1) by force+
  define gap where "gap =
    (if start_time seg > cur
     then all_adjust cur (start_time seg) (idx = 0) False
            (spec_fill b (start_time seg) cur (cw # window_ids_by_start_time b))
     else [])"
  define segs1 where "segs1 = segs @ gap @ [seg]"
  define cur1 where "cur1 = max (end_time seg) cur"
  have g: "(if start_time seg > cur
           then generate_inactive_segments_for_range cur (start_time seg) cw b (idx = 0) False
           else Inr []) = Inr gap"
    using cwkey by (simp add: gap_def generate_Inr)
  have step: "segments_loop b idx segs cur cw (seg # act) =
      segments_loop b (Suc idx) segs1 cur1 (window_id seg) act"
    using g by (simp add: segs1_def cur1_def)
  have A: "\<exists>win. (window_id seg, win) \<in> set b \<and> start_time win \<le> cur1"
    using win so by (auto simp: cur1_def)
  have B: "gs \<le> cur1" "cur1 \<le> ge"
    using Cons.prems(3,4) win(3) whi by (simp_all add: cur1_def)
  have C: "covered segs1 x" if x: "alive b x" "x < cur1" for x
  proof (cases "x < cur")
    case True
    then show ?thesis using Cons.prems(5) x(1) by (simp add: segs1_def covered_append)
  next
    case False
    then have cx: "cur \<le> x" and xe: "x < end_time seg" using x(2) by (simp_all add: cur1_def)
    show ?thesis
    proof (cases "start_time seg \<le> x")
      case True
      then show ?thesis using xe by (simp add: segs1_def covered_append covered_Cons)
    next
      case False
      then have xs: "x < start_time seg" by simp
      then have gapeq: "gap = all_adjust cur (start_time seg) (idx = 0) False
            (spec_fill b (start_time seg) cur (cw # window_ids_by_start_time b))"
        using cx by (simp add: gap_def)
      have raw: "covered (spec_fill b (start_time seg) cur (cw # window_ids_by_start_time b)) x"
        using dist cwin x(1) cx xs by (rule fill_covers)
      show ?thesis
      proof (cases "x = cur \<and> idx \<noteq> 0")
        case True
        then have "covered segs x" using Cons.prems(6) by auto
        then show ?thesis by (simp add: segs1_def covered_append)
      next
        case False
        then have "x = cur \<longrightarrow> idx = 0" by blast
        with ord raw xs have "covered gap x"
          unfolding gapeq by (rule adjust_covers)
        then show ?thesis by (simp add: segs1_def covered_append)
      qed
    qed
  qed
  have D: "covered segs1 cur1"
  proof (cases "cur \<le> end_time seg")
    case True
    then show ?thesis
      using so by (simp add: segs1_def cur1_def covered_append covered_Cons)
  next
    case False
    then have c1: "cur1 = cur" by (simp add: cur1_def)
    have "\<not> (idx = 0 \<and> cur = gs)" using False wlo win(2) so by auto
    then have "covered segs cur" using Cons.prems(6) by blast
    then show ?thesis by (simp add: c1 segs1_def covered_append)
  qed
  have E: "gs \<le> start_time s \<and> end_time s \<le> ge" if mem: "s \<in> set segs1" for s
  proof -
    consider "s \<in> set segs" | "s \<in> set gap" | "s = seg"
      using mem by (auto simp: segs1_def)
    then show ?thesis
    proof cases
      case 1
      then show ?thesis using Cons.prems(7) by blast
    next
      case 2
      then have "cur \<le> start_time s \<and> end_time s \<le> start_time seg"
        using gap_within [of s cur "start_time seg" "idx = 0" False b
            "cw # window_ids_by_start_time b"]
        by (simp add: gap_def split: if_splits)
      then show ?thesis using Cons.prems(3) so win(3) whi by simp
    next
      case 3
      then show ?thesis using wlo win(2,3) whi by simp
    qed
  qed
  have "\<exists>segs' cur' cw'.
       segments_loop b (Suc idx) segs1 cur1 (window_id seg) act = Inr (segs', cur', cw')
       \<and> (\<exists>win. (cw', win) \<in> set b \<and> start_time win \<le> cur')
       \<and> gs \<le> cur' \<and> cur' \<le> ge
       \<and> (\<forall>x. alive b x \<and> x < cur' \<longrightarrow> covered segs' x)
       \<and> (cur' = gs \<or> covered segs' cur')
       \<and> (\<forall>s \<in> set segs'. gs \<le> start_time s \<and> end_time s \<le> ge)"
  proof (rule Cons.IH)
    show "\<forall>seg \<in> set act. start_time seg \<le> end_time seg \<and>
           (\<exists>win. (window_id seg, win) \<in> set b \<and> start_time win \<le> start_time seg
                 \<and> end_time seg \<le> end_time win)"
      using Cons.prems(1) by simp
    show "\<exists>win. (window_id seg, win) \<in> set b \<and> start_time win \<le> cur1" by (rule A)
    show "gs \<le> cur1" "cur1 \<le> ge" by (rule B)+
    show "\<forall>x. alive b x \<and> x < cur1 \<longrightarrow> covered segs1 x" using C by blast
    show "(Suc idx = 0 \<and> cur1 = gs) \<or> covered segs1 cur1" using D by blast
    show "\<forall>s \<in> set segs1. gs \<le> start_time s \<and> end_time s \<le> ge" using E by blast
  qed
  then show ?case unfolding step .
qed

lemma all_active_within:
  assumes evs: "\<forall>kv \<in> set m. snd kv \<noteq> [] \<and> sorted (map timestamp (snd kv))"
    and seg: "seg \<in> set (sort_key start_time (concat (map (\<lambda>kv.
     get_active_segments_from_event_list (snd kv) (fst kv) ACTIVITY_THRESHOLD_SECONDS) m)))"
  shows "start_time seg \<le> end_time seg \<and>
     (\<exists>win. (window_id seg, win) \<in> set (window_bounds_of m)
           \<and> start_time win \<le> start_time seg \<and> end_time seg \<le> end_time win)"
proof -
  from seg obtain kv where kv: "kv \<in> set m"
    and s: "seg \<in> set (get_active_segments_from_event_list (snd kv) (fst kv)
                          ACTIVITY_THRESHOLD_SECONDS)"
    by auto
  define win where "win = \<lparr>start_time = timestamp (hd (snd kv)),
    end_time = timestamp (last (snd kv)), window_id = fst kv, is_active = False\<rparr>"
  have w: "window_id seg = fst kv"
    using get_active_segments_window [of "fst kv" "snd kv" ACTIVITY_THRESHOLD_SECONDS] s
    by (simp add: list_all_iff)
  have srt: "sorted (map timestamp (snd kv))" using evs kv by blast
  have within: "timestamp (hd (snd kv)) \<le> start_time seg \<and> start_time seg \<le> end_time seg \<and>
         end_time seg \<le> timestamp (last (snd kv))"
    using srt s by (rule active_within_window)
  have "(fst kv, win) \<in> set (window_bounds_of m)"
    using kv by (auto simp: window_bounds_of_def win_def)
  then show ?thesis
    using within w by (auto simp: win_def)
qed

subsection \<open>Inactive segments are apart from all others\<close>

lemma cursor_below_end:
  "i < length (spec_fill b re t ws) \<Longrightarrow> cursor (spec_fill b re t ws) t i < re"
  using spec_fill_nth [of i b re t ws] by simp

lemma cursor_step:
  assumes "Suc i < length (spec_fill b re t ws)"
  shows "cursor (spec_fill b re t ws) t i < cursor (spec_fill b re t ws) t (Suc i)"
  using spec_fill_nth [of i b re t ws] assms by (simp add: cursor_def)

lemma cursor_mono:
  "j < length (spec_fill b re t ws) \<Longrightarrow> i \<le> j \<Longrightarrow>
   cursor (spec_fill b re t ws) t i \<le> cursor (spec_fill b re t ws) t j"
proof (induction j)
  case 0
  then show ?case by simp
next
  case (Suc j)
  show ?case
  proof (cases "i = Suc j")
    case True
    then show ?thesis by simp
  next
    case False
    then have "i \<le> j" using Suc.prems(2) by simp
    moreover have "j < length (spec_fill b re t ws)" using Suc.prems(1) by simp
    ultimately have "cursor (spec_fill b re t ws) t i \<le> cursor (spec_fill b re t ws) t j"
      using Suc.IH by blast
    then show ?thesis using cursor_step [OF Suc.prems(1)] by simp
  qed
qed

text \<open>Within one gap every segment ends strictly before each later one starts.\<close>

lemma gap_in_order:
  "sorted_wrt (\<lambda>a c. end_time a < start_time c) (all_adjust rs re f l (spec_fill b re rs ws))"
proof -
  define F where "F = spec_fill b re rs ws"
  have "end_time (all_adjust rs re f l F ! i) < start_time (all_adjust rs re f l F ! j)"
    if ij: "i < j" "j < length F" for i j
  proof -
    have i: "i < length F" "Suc i \<le> j" using ij by simp_all
    have e: "end_time (adjusted rs re f l F i) \<le> end_time (F ! i)"
      by (simp add: adjusted_end)
    have "end_time (F ! i) = cursor F rs (Suc i)" by (simp add: cursor_def)
    also have "\<dots> \<le> cursor F rs j"
      unfolding F_def using ij(2) i(2) by (intro cursor_mono) (simp_all add: F_def)
    finally have c: "end_time (F ! i) \<le> cursor F rs j" .
    have "cursor F rs j \<le> start_time (F ! j)"
      using spec_fill_nth [of j b re rs ws] ij(2) by (simp add: F_def)
    moreover have "j \<noteq> 0" using ij(1) by simp
    ultimately have "cursor F rs j < start_time (adjusted rs re f l F j)"
      by (simp add: adjusted_start)
    then show ?thesis
      using e c i(1) ij(2) by (simp add: nth_all_adjust)
  qed
  then show ?thesis
    unfolding F_def [symmetric] by (simp add: sorted_wrt_iff_nth_less)
qed

lemma gap_ends_before:
  assumes "g \<in> set (all_adjust rs re f False (spec_fill b re rs ws))"
  shows "end_time g < re"
proof -
  define F where "F = spec_fill b re rs ws"
  obtain i where i: "i < length F" and g: "g = all_adjust rs re f False F ! i"
    using assms by (metis F_def in_set_conv_nth length_all_adjust)
  show ?thesis
  proof (cases "Suc i = length F")
    case True
    have "end_time (F ! i) \<le> re"
      using spec_fill_nth [of i b re rs ws] i by (simp add: F_def)
    then show ?thesis
      using True i g by (simp add: nth_all_adjust adjusted_end)
  next
    case False
    then have si: "Suc i < length F" using i by simp
    have "end_time (F ! i) = cursor F rs (Suc i)" by (simp add: cursor_def)
    also have "\<dots> < re"
      using cursor_below_end [of "Suc i" b re rs ws] si by (simp add: F_def)
    finally show ?thesis
      using i g by (simp add: nth_all_adjust adjusted_end)
  qed
qed

lemma gap_starts_after:
  assumes "g \<in> set (all_adjust rs re f l (spec_fill b re rs ws))"
  shows "rs \<le> start_time g" and "\<not> f \<Longrightarrow> rs < start_time g"
proof -
  define F where "F = spec_fill b re rs ws"
  obtain i where i: "i < length F" and g: "g = all_adjust rs re f l F ! i"
    using assms by (metis F_def in_set_conv_nth length_all_adjust)
  have c: "rs \<le> cursor F rs i" "cursor F rs i \<le> start_time (F ! i)"
    using spec_fill_nth [of i b re rs ws] i by (simp_all add: F_def)
  show "rs \<le> start_time g"
    using c i g by (simp add: nth_all_adjust adjusted_start)
  show "rs < start_time g" if nf: "\<not> f"
  proof (cases i)
    case 0
    then show ?thesis
      using c i g nf by (simp add: nth_all_adjust adjusted_start cursor_def)
  next
    case (Suc k)
    have "cursor F rs 0 < cursor F rs (Suc k)"
    proof -
      have "cursor F rs 0 \<le> cursor F rs k"
        unfolding F_def using i Suc by (intro cursor_mono) (simp_all add: F_def)
      moreover have "cursor F rs k < cursor F rs (Suc k)"
        unfolding F_def using i Suc by (intro cursor_step) (simp add: F_def)
      ultimately show ?thesis by simp
    qed
    then have "rs < cursor F rs i" using Suc by (simp add: cursor_def)
    then show ?thesis
      using c i g by (simp add: nth_all_adjust adjusted_start)
  qed
qed

lemma before_apart: "end_time a < start_time c \<Longrightarrow> apart gs a c"
  by (simp add: apart_def)

text \<open>
  Two segments that are apart share no instant but the global start, unless they are
  active segments of different windows.
\<close>

lemma apart_disjoint:
  assumes "apart gs a c" "\<not> (is_active a \<and> is_active c \<and> window_id a \<noteq> window_id c)"
    and "start_time a \<le> x" "x \<le> end_time a" "start_time c \<le> x" "x \<le> end_time c"
  shows "x = gs"
  using assms by (auto simp: apart_def)

text \<open>
  The active segments of one window are in turn, and so are the active segments of all
  windows, before and after they are sorted by their start.
\<close>

lemma window_in_turn:
  assumes "sorted (map timestamp evs)"
  shows "sorted_wrt in_turn
           (get_active_segments_from_event_list evs w ACTIVITY_THRESHOLD_SECONDS)"
proof -
  define L where "L = spec_active_segments w ACTIVITY_THRESHOLD_SECONDS
                        (map timestamp (filter is_active_event evs))"
  have thr: "0 \<le> ACTIVITY_THRESHOLD_SECONDS" by (simp add: ACTIVITY_THRESHOLD_SECONDS_def)
  have eq: "get_active_segments_from_event_list evs w ACTIVITY_THRESHOLD_SECONDS = L"
    unfolding L_def using assms thr by (rule get_active_eq_spec)
  have props: "\<forall>s \<in> set L. start_time s \<le> end_time s"
      "successively (separated ACTIVITY_THRESHOLD_SECONDS) L"
    using spec_active_segments_props [OF sorted_active_timestamps [OF assms], of w
        ACTIVITY_THRESHOLD_SECONDS]
    by (simp_all add: L_def)
  have "successively (\<lambda>a c. end_time a < start_time c \<and> start_time c \<le> end_time c) L"
  proof (rule successively_mono [OF props(2)])
    fix a c
    assume "a \<in> set L" "c \<in> set L" "separated ACTIVITY_THRESHOLD_SECONDS a c"
    then show "end_time a < start_time c \<and> start_time c \<le> end_time c"
      using props(1) thr by (simp add: separated_def)
  qed
  then have "sorted_wrt (\<lambda>a c. end_time a < start_time c \<and> start_time c \<le> end_time c) L"
    by (subst (asm) successively_conv_sorted_wrt) (auto simp: transp_def)
  then have "sorted_wrt in_turn L"
    by (rule sorted_wrt_mono_rel [rotated]) (simp add: in_turn_def)
  then show ?thesis by (simp add: eq)
qed

lemma concat_in_turn:
  "distinct (map fst m) \<Longrightarrow> \<forall>kv \<in> set m. sorted (map timestamp (snd kv)) \<Longrightarrow>
   sorted_wrt in_turn (concat (map (\<lambda>kv.
     get_active_segments_from_event_list (snd kv) (fst kv) ACTIVITY_THRESHOLD_SECONDS) m))"
proof (induction m)
  case Nil
  then show ?case by simp
next
  case (Cons kv m)
  let ?L = "get_active_segments_from_event_list (snd kv) (fst kv) ACTIVITY_THRESHOLD_SECONDS"
  let ?R = "concat (map (\<lambda>kv.
     get_active_segments_from_event_list (snd kv) (fst kv) ACTIVITY_THRESHOLD_SECONDS) m)"
  have one: "sorted_wrt in_turn ?L"
    using Cons.prems(2) by (simp add: window_in_turn)
  have rest: "sorted_wrt in_turn ?R"
    using Cons by simp
  have cross: "in_turn a c" if a: "a \<in> set ?L" and c: "c \<in> set ?R" for a c
  proof -
    have wa: "window_id a = fst kv"
      using get_active_segments_window [of "fst kv" "snd kv" ACTIVITY_THRESHOLD_SECONDS] a
      by (simp add: list_all_iff)
    from c obtain kv' where kv': "kv' \<in> set m"
      and c': "c \<in> set (get_active_segments_from_event_list (snd kv') (fst kv')
                            ACTIVITY_THRESHOLD_SECONDS)"
      by auto
    have wc: "window_id c = fst kv'"
      using get_active_segments_window [of "fst kv'" "snd kv'" ACTIVITY_THRESHOLD_SECONDS] c'
      by (simp add: list_all_iff)
    have "fst kv \<noteq> fst kv'" using Cons.prems(1) kv' by force
    then show ?thesis using wa wc by (simp add: in_turn_def)
  qed
  show ?case
    using one rest cross by (simp add: sorted_wrt_append)
qed

lemma insort_in_turn:
  assumes x: "start_time x \<le> end_time x"
  shows "sorted_wrt in_turn ys \<Longrightarrow> \<forall>y \<in> set ys. in_turn x y \<Longrightarrow>
         sorted_wrt in_turn (insort_key start_time x ys)"
proof (induction ys)
  case Nil
  then show ?case by simp
next
  case (Cons y ys)
  show ?case
  proof (cases "start_time x \<le> start_time y")
    case True
    then show ?thesis using Cons.prems by simp
  next
    case False
    have "in_turn x y" using Cons.prems(2) by simp
    then have yx: "in_turn y x" using False x by (auto simp: in_turn_def)
    have "sorted_wrt in_turn (insort_key start_time x ys)"
      using Cons by simp
    moreover have "\<forall>z \<in> set (insort_key start_time x ys). in_turn y z"
      using yx Cons.prems(1) by (simp add: set_insort_key)
    ultimately show ?thesis using False by simp
  qed
qed

lemma sort_key_in_turn:
  "sorted_wrt in_turn xs \<Longrightarrow> \<forall>x \<in> set xs. start_time x \<le> end_time x \<Longrightarrow>
   sorted_wrt in_turn (sort_key start_time xs)"
proof (induction xs)
  case Nil
  then show ?case by simp
next
  case (Cons x xs)
  have "sorted_wrt in_turn (insort_key start_time x (sort_key start_time xs))"
    using Cons by (intro insort_in_turn) simp_all
  then show ?case by simp
qed

text \<open>
  What holds between two rounds of the loop: the segments so far are apart, all of them
  end no later than the current timestamp, the inactive ones end strictly before it and
  strictly before every active segment still to come, and the active ones end strictly
  before every active segment of their window still to come.
\<close>

lemma segments_loop_apart:
  "sorted (map start_time act) \<Longrightarrow> sorted_wrt in_turn act \<Longrightarrow>
   \<forall>a \<in> set act. is_active a \<and> start_time a \<le> end_time a \<and> window_id a \<in> fst ` set b \<Longrightarrow>
   cw \<in> fst ` set b \<Longrightarrow>
   sorted_wrt (apart gs) segs \<Longrightarrow>
   \<forall>s \<in> set segs. end_time s \<le> cur \<Longrightarrow>
   \<forall>s \<in> set segs. \<not> is_active s \<longrightarrow> end_time s < cur \<Longrightarrow>
   \<forall>s \<in> set segs. \<not> is_active s \<longrightarrow> (\<forall>a \<in> set act. end_time s < start_time a) \<Longrightarrow>
   \<forall>s \<in> set segs. \<forall>a \<in> set act. in_turn s a \<Longrightarrow>
   idx = 0 \<longrightarrow> segs = [] \<Longrightarrow>
   \<exists>segs' cur' cw'.
     segments_loop b idx segs cur cw act = Inr (segs', cur', cw')
     \<and> sorted_wrt (apart gs) segs'
     \<and> (\<forall>s \<in> set segs'. end_time s \<le> cur')
     \<and> (\<forall>s \<in> set segs'. \<not> is_active s \<longrightarrow> end_time s < cur')"
proof (induction act arbitrary: idx segs cur cw)
  case Nil
  then show ?case by simp
next
  case (Cons seg act)
  have a: "is_active seg" "start_time seg \<le> end_time seg" "window_id seg \<in> fst ` set b"
    using Cons.prems(3) by simp_all
  have later: "\<forall>a \<in> set act. start_time seg \<le> start_time a"
    using Cons.prems(1) by simp
  have turn: "\<forall>a \<in> set act. in_turn seg a" "sorted_wrt in_turn act"
    using Cons.prems(2) by simp_all
  define gap where "gap =
    (if start_time seg > cur
     then all_adjust cur (start_time seg) (idx = 0) False
            (spec_fill b (start_time seg) cur (cw # window_ids_by_start_time b))
     else [])"
  define segs1 where "segs1 = segs @ gap @ [seg]"
  define cur1 where "cur1 = max (end_time seg) cur"
  have g: "(if start_time seg > cur
           then generate_inactive_segments_for_range cur (start_time seg) cw b (idx = 0) False
           else Inr []) = Inr gap"
    using Cons.prems(4) by (simp add: gap_def generate_Inr)
  have step: "segments_loop b idx segs cur cw (seg # act) =
      segments_loop b (Suc idx) segs1 cur1 (window_id seg) act"
    using g by (simp add: segs1_def cur1_def)
  have gap_end: "end_time x < start_time seg" if "x \<in> set gap" for x
    using that gap_ends_before [of x cur "start_time seg" "idx = 0" b
        "cw # window_ids_by_start_time b"]
    by (simp add: gap_def split: if_splits)
  have gap_start: "cur < start_time x" if "x \<in> set gap" "idx \<noteq> 0" for x
    using that gap_starts_after(2) [of x cur "start_time seg" "idx = 0" False b
        "cw # window_ids_by_start_time b"]
    by (simp add: gap_def split: if_splits)
  have gap_idle: "\<not> is_active x" if "x \<in> set gap" for x
    using that gap_inactive [of x cur "start_time seg" "idx = 0" False b
        "cw # window_ids_by_start_time b"]
    by (simp add: gap_def split: if_splits)
  have gg: "sorted_wrt (apart gs) gap"
  proof (cases "start_time seg > cur")
    case True
    have "sorted_wrt (apart gs) (all_adjust cur (start_time seg) (idx = 0) False
            (spec_fill b (start_time seg) cur (cw # window_ids_by_start_time b)))"
      by (rule sorted_wrt_mono_rel [OF _ gap_in_order]) (rule before_apart)
    then show ?thesis using True by (simp add: gap_def)
  next
    case False
    then show ?thesis by (simp add: gap_def)
  qed
  have sg: "apart gs s x" if "s \<in> set segs" "x \<in> set gap" for s x
  proof -
    have "idx \<noteq> 0" using that(1) Cons.prems(10) by auto
    then have "cur < start_time x" using that(2) gap_start by blast
    moreover have "end_time s \<le> cur" using that(1) Cons.prems(6) by blast
    ultimately show ?thesis by (simp add: apart_def)
  qed
  have ss: "apart gs s seg" if "s \<in> set segs" for s
  proof (cases "is_active s")
    case True
    have "in_turn s seg" using that Cons.prems(9) by simp
    then show ?thesis using True a(1) by (auto simp: apart_def in_turn_def)
  next
    case False
    then have "end_time s < start_time seg" using that Cons.prems(8) by simp
    then show ?thesis by (rule before_apart)
  qed
  have gs': "apart gs x seg" if "x \<in> set gap" for x
    using gap_end [OF that] by (rule before_apart)
  have J1: "sorted_wrt (apart gs) segs1"
    using Cons.prems(5) gg sg ss gs' by (auto simp: segs1_def sorted_wrt_append)
  have J2: "\<forall>s \<in> set segs1. end_time s \<le> cur1"
    using Cons.prems(6) gap_end a(2) by (fastforce simp: segs1_def cur1_def)
  have J3: "\<forall>s \<in> set segs1. \<not> is_active s \<longrightarrow> end_time s < cur1"
    using Cons.prems(7) gap_end a(1,2) by (fastforce simp: segs1_def cur1_def)
  have before: "end_time s < start_time c"
    if s: "s \<in> set segs1" "\<not> is_active s" and c: "c \<in> set act" for s c
  proof -
    consider "s \<in> set segs" | "s \<in> set gap"
      using s a(1) by (auto simp: segs1_def)
    then show ?thesis
    proof cases
      case 1
      then show ?thesis using Cons.prems(8) s(2) c by simp
    next
      case 2
      then have "end_time s < start_time seg" by (rule gap_end)
      then show ?thesis using later c by fastforce
    qed
  qed
  have J5: "in_turn s c" if s: "s \<in> set segs1" and c: "c \<in> set act" for s c
  proof -
    consider "s \<in> set segs" | "s \<in> set gap" | "s = seg"
      using s by (auto simp: segs1_def)
    then show ?thesis
    proof cases
      case 1
      then show ?thesis using Cons.prems(9) c by simp
    next
      case 2
      then have "end_time s < start_time c" using before [OF s _ c] gap_idle by blast
      then show ?thesis by (simp add: in_turn_def)
    next
      case 3
      then show ?thesis using turn(1) c by blast
    qed
  qed
  have "\<exists>segs' cur' cw'.
     segments_loop b (Suc idx) segs1 cur1 (window_id seg) act = Inr (segs', cur', cw')
     \<and> sorted_wrt (apart gs) segs'
     \<and> (\<forall>s \<in> set segs'. end_time s \<le> cur')
     \<and> (\<forall>s \<in> set segs'. \<not> is_active s \<longrightarrow> end_time s < cur')"
  proof (rule Cons.IH)
    show "sorted (map start_time act)" using Cons.prems(1) by simp
    show "sorted_wrt in_turn act" by (rule turn(2))
    show "\<forall>a \<in> set act. is_active a \<and> start_time a \<le> end_time a
            \<and> window_id a \<in> fst ` set b"
      using Cons.prems(3) by simp
    show "window_id seg \<in> fst ` set b" by (rule a(3))
    show "sorted_wrt (apart gs) segs1" by (rule J1)
    show "\<forall>s \<in> set segs1. end_time s \<le> cur1" by (rule J2)
    show "\<forall>s \<in> set segs1. \<not> is_active s \<longrightarrow> end_time s < cur1" by (rule J3)
    show "\<forall>s \<in> set segs1. \<not> is_active s \<longrightarrow> (\<forall>a \<in> set act. end_time s < start_time a)"
      using before by blast
    show "\<forall>s \<in> set segs1. \<forall>a \<in> set act. in_turn s a" using J5 by blast
    show "Suc idx = 0 \<longrightarrow> segs1 = []" by simp
  qed
  then show ?case unfolding step .
qed




subsection \<open>Counts and duration\<close>

text \<open>
  C6. The click and keypress counts read \<^verbatim>\<open>x["data"]["source"]\<close> of every summary of
  type 3. One window with the single summary of type 3 and empty data: no summary has
  source 2 or 5, so both counts should be 0, and the call raises \<^verbatim>\<open>KeyError\<close> instead.
\<close>

theorem click_count_raises_KeyError:
  "get_metadata_from_events_summary
     [(''w'', [\<lparr>timestamp = 0, event_type = 3, data = []\<rparr>])] = Inl KeyError"
  by code_simp

text \<open>
  C7. The duration is the \<^verbatim>\<open>.seconds\<close> attribute of the elapsed time, which leaves the
  days out. One window whose first and last summaries are exactly one day apart: 86400
  seconds elapse and the duration is 0.
\<close>

theorem duration_drops_whole_days:
  "(case get_metadata_from_events_summary
     [(''w'', [\<lparr>timestamp = 0, event_type = 4, data = []\<rparr>,
               \<lparr>timestamp = 86400000, event_type = 4, data = []\<rparr>])] of
      Inl e \<Rightarrow> False
    | Inr md \<Rightarrow>
        md_start_time md = 0 \<and> md_end_time md = 86400000 \<and> duration md = 0 \<and>
        (md_end_time md - md_start_time md) div 1000 = 86400)"
  by code_simp

subsection \<open>Counts and duration of a call that returns\<close>

lemma segments_loop_returns:
  assumes ne: "m \<noteq> []"
  shows "\<exists>segs cur cw.
     segments_loop (window_bounds_of m) 0 [] (global_start (window_bounds_of m))
        (hd (window_ids_by_start_time (window_bounds_of m)))
        (sort_key start_time (concat (map (\<lambda>kv.
           get_active_segments_from_event_list (snd kv) (fst kv) ACTIVITY_THRESHOLD_SECONDS) m)))
       = Inr (segs, cur, cw)
     \<and> cw \<in> fst ` set (window_bounds_of m)"
proof -
  define b where "b = window_bounds_of m"
  define act where "act = sort_key start_time (concat (map (\<lambda>kv.
     get_active_segments_from_event_list (snd kv) (fst kv) ACTIVITY_THRESHOLD_SECONDS) m))"
  have bne: "b \<noteq> []" using ne by (simp add: b_def bounds_of_nonempty)
  have keys: "fst ` set b = fst ` set m" by (simp add: b_def keys_bounds_of)
  have cw0: "hd (window_ids_by_start_time b) \<in> fst ` set b"
    using hd_window_ids [OF bne] by force
  have acts: "\<forall>seg \<in> set act. is_active seg \<and> window_id seg \<in> fst ` set b"
    unfolding act_def keys using all_active_window by blast
  show ?thesis
    unfolding b_def [symmetric] act_def [symmetric]
    using segments_loop_collision [OF acts cw0, of "global_start b" "[]" "global_start b" 0]
    by auto
qed

text \<open>
  When every summary of type 3 has a \<^verbatim>\<open>source\<close>, the call returns, and the two counts
  are the numbers of summaries of type 3 with source 2 and with source 5.
\<close>

lemma counts_with_sources:
  assumes ne: "m \<noteq> []" and dist: "distinct (map fst m)"
    and evs: "\<forall>kv \<in> set m. snd kv \<noteq> []"
    and src: "\<forall>kv \<in> set m. \<forall>x \<in> set (snd kv).
                event_type x = 3 \<longrightarrow> map_of (data x) ''source'' \<noteq> None"
  shows "\<exists>md. get_metadata_from_events_summary m = Inr md
      \<and> click_count md = length (filter (\<lambda>x. event_type x = 3 \<and>
              map_of (data x) ''source'' = Some (Scalar (SInt 2))) (concat (map snd m)))
      \<and> keypress_count md = length (filter (\<lambda>x. event_type x = 3 \<and>
              map_of (data x) ''source'' = Some (Scalar (SInt 5))) (concat (map snd m)))"
proof -
  obtain segs cur cw where
    "segments_loop (window_bounds_of m) 0 [] (global_start (window_bounds_of m))
        (hd (window_ids_by_start_time (window_bounds_of m)))
        (sort_key start_time (concat (map (\<lambda>kv.
           get_active_segments_from_event_list (snd kv) (fst kv) ACTIVITY_THRESHOLD_SECONDS) m)))
       = Inr (segs, cur, cw)"
    "cw \<in> fst ` set (window_bounds_of m)"
    using segments_loop_returns [OF ne] by blast
  from get_metadata_eq [OF ne dist evs src this] show ?thesis by simp
qed

text \<open>
  The duration of a call that returns is the \<^verbatim>\<open>.seconds\<close> attribute of the elapsed
  time: the whole seconds of what is left after the whole days. It is the whole number of
  elapsed seconds when less than a day has elapsed.
\<close>

lemma duration_of_metadata:
  assumes ne: "m \<noteq> []" and dist: "distinct (map fst m)"
    and evs: "\<forall>kv \<in> set m. snd kv \<noteq> []"
    and src: "\<forall>kv \<in> set m. \<forall>x \<in> set (snd kv).
                event_type x = 3 \<longrightarrow> map_of (data x) ''source'' \<noteq> None"
  shows "\<exists>md. get_metadata_from_events_summary m = Inr md
      \<and> duration md = ((md_end_time md - md_start_time md) mod 86400000) div 1000
      \<and> (0 \<le> md_end_time md - md_start_time md
           \<and> md_end_time md - md_start_time md < 86400000 \<longrightarrow>
         duration md = (md_end_time md - md_start_time md) div 1000)"
proof -
  obtain segs cur cw where
    "segments_loop (window_bounds_of m) 0 [] (global_start (window_bounds_of m))
        (hd (window_ids_by_start_time (window_bounds_of m)))
        (sort_key start_time (concat (map (\<lambda>kv.
           get_active_segments_from_event_list (snd kv) (fst kv) ACTIVITY_THRESHOLD_SECONDS) m)))
       = Inr (segs, cur, cw)"
    "cw \<in> fst ` set (window_bounds_of m)"
    using segments_loop_returns [OF ne] by blast
  from get_metadata_eq [OF ne dist evs src this] show ?thesis
    by (simp add: seconds_attr_def)
qed

subsection \<open>The UTF-16 round trip\<close>

lemma units_of_bytes_le:
  "\<forall>u \<in> set us. u < 65536 \<Longrightarrow>
   units_of_bytes True (concat (map (\<lambda>u. [u mod 256, u div 256]) us)) = Some us"
  by (induction us) simp_all

lemma units_of_code_point_bound:
  "c < 0x110000 \<Longrightarrow> \<forall>u \<in> set (units_of_code_point c). u < 65536"
  by (auto simp: units_of_code_point_def)

lemma encode_units_bound:
  "valid_str s \<Longrightarrow> \<forall>u \<in> set (encode_units s). u < 65536"
  using units_of_code_point_bound
  by (fastforce simp: encode_units_def valid_str_def list_all_iff)

lemma decode_units_single:
  "\<not> (is_high u \<and> us \<noteq> [] \<and> is_low (hd us)) \<Longrightarrow> decode_units (u # us) = u # decode_units us"
  by (cases us) auto

lemma hd_encode_units:
  "valid_str (c # s) \<Longrightarrow>
   is_low (hd (encode_units (c # s))) \<longleftrightarrow> is_low c"
  by (auto simp: encode_units_def units_of_code_point_def is_low_def valid_str_def)

lemma decode_pair:
  assumes "0x10000 \<le> c" "c < 0x110000"
  shows "decode_units (units_of_code_point c @ us) = c # decode_units us"
proof -
  define h where "h = 0xD800 + (c - 0x10000) div 0x400"
  define l where "l = 0xDC00 + (c - 0x10000) mod 0x400"
  have u: "units_of_code_point c = [h, l]"
    using assms by (simp add: units_of_code_point_def h_def l_def)
  have hl: "is_high h" "is_low l"
    using assms by (simp_all add: is_high_def is_low_def h_def l_def)
  have "0x10000 + (h - 0xD800) * 0x400 + (l - 0xDC00) = c"
    using assms by (simp add: h_def l_def)
  then show ?thesis
    using u hl by simp
qed

lemma decode_encode_units:
  "valid_str s \<Longrightarrow> no_surrogate_pair s \<Longrightarrow> decode_units (encode_units s) = s"
proof (induction s)
  case Nil
  then show ?case by (simp add: encode_units_def)
next
  case (Cons c s)
  have vs: "valid_str s" and c: "c < 0x110000"
    using Cons.prems(1) by (simp_all add: valid_str_def)
  have ns: "no_surrogate_pair s"
    using Cons.prems(2) by (cases s) (simp_all add: no_surrogate_pair_def)
  have IH: "decode_units (encode_units s) = s" using Cons.IH vs ns by simp
  have enc: "encode_units (c # s) = units_of_code_point c @ encode_units s"
    by (simp add: encode_units_def)
  show ?case
  proof (cases "c < 0x10000")
    case True
    have "\<not> (is_high c \<and> encode_units s \<noteq> [] \<and> is_low (hd (encode_units s)))"
    proof (cases s)
      case Nil
      then show ?thesis by (simp add: encode_units_def)
    next
      case (Cons d s')
      then have "\<not> (is_high c \<and> is_low d)"
        using Cons.prems(2) by (simp add: no_surrogate_pair_def)
      moreover have "is_low (hd (encode_units s)) \<longleftrightarrow> is_low d"
        using vs unfolding Cons by (rule hd_encode_units)
      ultimately show ?thesis by blast
    qed
    then have "decode_units (c # encode_units s) = c # decode_units (encode_units s)"
      by (rule decode_units_single)
    then show ?thesis
      using True IH by (simp add: enc units_of_code_point_def)
  next
    case False
    then show ?thesis
      using c IH decode_pair [of c "encode_units s"] by (simp add: enc)
  qed
qed

lemma utf16_round_trip:
  assumes "valid_str s" "no_surrogate_pair s"
  shows "utf16_decode (utf16_encode s) = Inr s"
proof -
  have "units_of_bytes True (concat (map (\<lambda>u. [u mod 256, u div 256]) (encode_units s)))
          = Some (encode_units s)"
    using assms(1) by (intro units_of_bytes_le encode_units_bound)
  then show ?thesis
    using decode_encode_units [OF assms]
    by (simp add: utf16_decode_def utf16_encode_def)
qed

text \<open>
  C5. Decompressing a compressed string gives the string back, when it holds no high
  surrogate followed at once by a low surrogate; a surrogate on its own is kept. The
  \<^verbatim>\<open>gzip\<close> and \<^verbatim>\<open>base64\<close> functions are taken to undo each other.
\<close>

theorem decompress_compress_to_string:
  assumes gz: "\<And>bs. gzip_decompress (gzip_compress bs) = Inr bs"
    and b64: "\<And>bs. b64decode (b64encode bs) = Inr bs"
    and s: "valid_str s" "no_surrogate_pair s"
  shows "decompress gzip_decompress b64decode
           (compress_to_string gzip_compress b64encode s) = Inr s"
  using utf16_round_trip [OF s]
  by (simp add: decompress_def compress_to_string_def gz b64)

theorem decompress_compress_to_string_witness:
  "valid_str [0x61, 0xD83D, 0x1F600, 0xDE00]
   \<and> no_surrogate_pair [0x61, 0xD83D, 0x1F600, 0xDE00]
   \<and> decompress (\<lambda>bs. Inr (rev bs)) Inr
        (compress_to_string rev (\<lambda>bs. bs) [0x61, 0xD83D, 0x1F600, 0xDE00])
      = Inr [0x61, 0xD83D, 0x1F600, 0xDE00]"
proof -
  have v: "valid_str [0x61, 0xD83D, 0x1F600, 0xDE00]"
    by (simp add: valid_str_def)
  have n: "no_surrogate_pair [0x61, 0xD83D, 0x1F600, 0xDE00]"
    by (simp add: no_surrogate_pair_def is_high_def is_low_def)
  show ?thesis
    using v n decompress_compress_to_string
      [of "\<lambda>bs. Inr (rev bs)" rev Inr "\<lambda>bs. bs" "[0x61, 0xD83D, 0x1F600, 0xDE00]"]
    by simp
qed

text \<open>
  The claim as the specification words it fails on the string of the two code points
  \<open>0xD83D\<close> and \<open>0xDE00\<close>, a high surrogate followed by a low surrogate: the encoder
  writes them as two code units, and the decoder reads the two as one surrogate pair, the
  code point \<open>0x1F600\<close>.
\<close>

theorem decompress_compress_counterexample:
  "valid_str [0xD83D, 0xDE00]
   \<and> utf16_encode [0xD83D, 0xDE00] = [0xFF, 0xFE, 0x3D, 0xD8, 0x00, 0xDE]
   \<and> utf16_decode (utf16_encode [0xD83D, 0xDE00]) = Inr [0x1F600]
   \<and> decompress (\<lambda>bs. Inr (rev bs)) Inr
        (compress_to_string rev (\<lambda>bs. bs) [0xD83D, 0xDE00]) = Inr [0x1F600]"
proof -
  have e: "utf16_encode [0xD83D, 0xDE00] = [0xFF, 0xFE, 0x3D, 0xD8, 0x00, 0xDE]"
    by (simp add: utf16_encode_def encode_units_def units_of_code_point_def)
  have d: "utf16_decode [0xFF, 0xFE, 0x3D, 0xD8, 0x00, 0xDE] = Inr [0x1F600]"
    by (simp add: utf16_decode_def is_high_def is_low_def)
  show ?thesis
    using e d by (simp add: valid_str_def decompress_def compress_to_string_def)
qed

end
